theory Spec2Isabelle
  imports Main "HOL-Library.AList"
begin

section \<open>Python strings\<close>

text \<open>
  A Python \<open>str\<close> is a sequence of code points. The embedding uses \<open>string\<close>, whose
  characters are the 256 values \<open>0x00 .. 0xFF\<close>, read as the code points
  \<open>U+0000 .. U+00FF\<close> (ASCII and Latin-1): \<open>length\<close> counts code points, as Python's
  \<open>len\<close> does. The character classes below are Python's own tables cut at \<open>U+00FF\<close>.
\<close>

definition is_space :: "char \<Rightarrow> bool" where
  \<comment> \<open>the characters \<open>str.strip()\<close> removes: \<open>\t \n \v \f \r\<close>, \<open>0x1C .. 0x1F\<close>, space,
      \<open>0x85\<close> and \<open>0xA0\<close>\<close>
  "is_space c =
     (let n = (of_char c :: nat)
      in (9 \<le> n \<and> n \<le> 13) \<or> (28 \<le> n \<and> n \<le> 32) \<or> n = 133 \<or> n = 160)"

definition is_linebreak :: "char \<Rightarrow> bool" where
  \<comment> \<open>the line boundaries of \<open>str.splitlines()\<close>: \<open>\n \v \f \r\<close>, \<open>0x1C 0x1D 0x1E\<close>, \<open>0x85\<close>\<close>
  "is_linebreak c =
     (let n = (of_char c :: nat)
      in (10 \<le> n \<and> n \<le> 13) \<or> (28 \<le> n \<and> n \<le> 30) \<or> n = 133)"

definition is_ascii_alpha :: "char \<Rightarrow> bool" where
  \<comment> \<open>the class \<open>[a-z]\<close> under the flag \<open>(?i)\<close>: the 52 ASCII letters\<close>
  "is_ascii_alpha c =
     (let n = (of_char c :: nat)
      in (65 \<le> n \<and> n \<le> 90) \<or> (97 \<le> n \<and> n \<le> 122))"

definition is_word :: "char \<Rightarrow> bool" where
  \<comment> \<open>the class \<open>\w\<close> of a \<open>str\<close> pattern: \<open>str.isalnum()\<close> or the underscore\<close>
  "is_word c =
     (let n = (of_char c :: nat)
      in (48 \<le> n \<and> n \<le> 57) \<or> (65 \<le> n \<and> n \<le> 90) \<or> n = 95 \<or> (97 \<le> n \<and> n \<le> 122)
         \<or> n = 170 \<or> n = 178 \<or> n = 179 \<or> n = 181 \<or> n = 185 \<or> n = 186
         \<or> (188 \<le> n \<and> n \<le> 190) \<or> (192 \<le> n \<and> n \<le> 214)
         \<or> (216 \<le> n \<and> n \<le> 246) \<or> (248 \<le> n \<and> n \<le> 255))"

definition lower_char :: "char \<Rightarrow> char" where
  "lower_char c =
     (let n = (of_char c :: nat)
      in if (65 \<le> n \<and> n \<le> 90) \<or> (192 \<le> n \<and> n \<le> 222 \<and> n \<noteq> 215)
         then char_of (n + 32) else c)"

definition lower :: "string \<Rightarrow> string" where
  \<comment> \<open>\<open>str.lower()\<close>\<close>
  "lower s = map lower_char s"

definition strip :: "string \<Rightarrow> string" where
  \<comment> \<open>\<open>str.strip()\<close>\<close>
  "strip s = rev (dropWhile is_space (rev (dropWhile is_space s)))"

definition startswith :: "string \<Rightarrow> string \<Rightarrow> bool" where
  \<comment> \<open>\<open>s.startswith(p)\<close>\<close>
  "startswith s p = (take (length p) s = p)"

definition endswith :: "string \<Rightarrow> string \<Rightarrow> bool" where
  \<comment> \<open>\<open>s.endswith(p)\<close>\<close>
  "endswith s p = (length p \<le> length s \<and> drop (length s - length p) s = p)"

fun contains :: "string \<Rightarrow> string \<Rightarrow> bool" where
  \<comment> \<open>\<open>sub in s\<close>, written \<open>contains sub s\<close>\<close>
  "contains sub [] = (sub = [])"
| "contains sub (c # cs) = (startswith (c # cs) sub \<or> contains sub cs)"

fun split_once :: "string \<Rightarrow> string \<Rightarrow> (string \<times> string) option" where
  \<comment> \<open>\<open>s.split(sep, 1)\<close> for a non-empty \<open>sep\<close>: the text before and after the first
      occurrence of \<open>sep\<close>, None when \<open>sep\<close> does not occur\<close>
  "split_once sep [] = None"
| "split_once sep (c # cs) =
     (if startswith (c # cs) sep then Some ([], drop (length sep) (c # cs))
      else (case split_once sep cs of
              None \<Rightarrow> None
            | Some (p, r) \<Rightarrow> Some (c # p, r)))"

fun splitlines_from :: "string \<Rightarrow> string \<Rightarrow> string list" where
  \<comment> \<open>\<open>str.splitlines()\<close> with the line read so far; \<open>\r\n\<close> is one boundary, and a
      boundary at the very end opens no further line\<close>
  "splitlines_from cur [] = (if cur = [] then [] else [cur])"
| "splitlines_from cur (c # cs) =
     (if c = CHR 0x0D then
        (case cs of
           [] \<Rightarrow> [cur]
         | d # ds \<Rightarrow>
             if d = CHR 0x0A then cur # splitlines_from [] ds
             else cur # splitlines_from [] cs)
      else if is_linebreak c then cur # splitlines_from [] cs
      else splitlines_from (cur @ [c]) cs)"

definition splitlines :: "string \<Rightarrow> string list" where
  "splitlines s = splitlines_from [] s"

fun join :: "string \<Rightarrow> string list \<Rightarrow> string" where
  \<comment> \<open>\<open>sep.join(xs)\<close>\<close>
  "join sep [] = []"
| "join sep [x] = x"
| "join sep (x # y # ys) = x @ sep @ join sep (y # ys)"

section \<open>The text normalizer: \<open>clean_lyrics\<close>\<close>

definition is_lang_code :: "string \<Rightarrow> bool" where
  \<comment> \<open>\<open>re.fullmatch(r"(?i)[a-z]{2,3}", s)\<close> succeeds\<close>
  "is_lang_code s = ((length s = 2 \<or> length s = 3) \<and> list_all is_ascii_alpha s)"

definition sub_lang_prefix :: "string \<Rightarrow> string" where
  \<comment> \<open>\<open>re.sub(r"(?i)^\W*[a-z]{2,3}\|\|", "", line)\<close>. The pattern is anchored at the start,
      so at most one match is replaced. No letter is in \<open>\W\<close>, so \<open>\W*\<close> can only stand
      for the whole leading run of non-word characters; the letters that follow must be
      exactly two or three, since the next character has to be the bar.\<close>
  "sub_lang_prefix line =
     (let rest = dropWhile (\<lambda>c. \<not> is_word c) line;
          letters = takeWhile is_ascii_alpha rest;
          after = dropWhile is_ascii_alpha rest
      in if (length letters = 2 \<or> length letters = 3) \<and> startswith after ''||''
         then drop 2 after else line)"

definition clean_line :: "string \<Rightarrow> string" where
  \<comment> \<open>lines 33 to 38: the text of a line after both prefix rules\<close>
  "clean_line l =
     (let line = strip l;
          line = (if contains ''||'' line then
                    (case split_once ''||'' line of
                       Some (pre, rest) \<Rightarrow>
                         if is_lang_code (strip pre) then strip rest else line
                     | None \<Rightarrow> line)
                  else line)
      in strip (sub_lang_prefix line))"

definition boilerplate :: "string \<Rightarrow> bool" where
  \<comment> \<open>\<open>any(tag in lower for tag in (...))\<close>\<close>
  "boilerplate low =
     (contains ''contributors'' low \<or> contains ''translations'' low
      \<or> contains ''paroles de la chanson'' low)"

fun clean_loop :: "string list \<Rightarrow> string list" where
  \<comment> \<open>the \<open>for\<close> loop of lines 32 to 47: the lines appended to \<open>out\<close>; \<open>continue\<close> drops
      the line, \<open>break\<close> drops it and every later one\<close>
  "clean_loop [] = []"
| "clean_loop (l # ls) =
     (let line = clean_line l; low = lower line
      in if boilerplate low then clean_loop ls
         else if startswith low ''you might also like'' then []
         else line # clean_loop ls)"

definition blank :: "string \<Rightarrow> bool" where
  \<comment> \<open>\<open>not s.strip()\<close>\<close>
  "blank s = (strip s = [])"

definition trim_blank :: "string list \<Rightarrow> string list" where
  \<comment> \<open>the two \<open>while\<close> loops of lines 48 to 51\<close>
  "trim_blank out = rev (dropWhile blank (rev (dropWhile blank out)))"

definition clean_lyrics :: "string \<Rightarrow> string" where
  "clean_lyrics raw = join [CHR 0x0A] (trim_blank (clean_loop (splitlines raw)))"

section \<open>Exceptions, log records and the world around a job\<close>

datatype exn = Raised string string
  \<comment> \<open>a raised exception: its class name and \<open>str(e)\<close>\<close>

definition IndexError :: exn where
  "IndexError = Raised ''IndexError'' ''list index out of range''"

definition AttributeError :: exn where
  "AttributeError = Raised ''AttributeError'' ''object has no attribute text''"

definition ValueError :: exn where
  "ValueError = Raised ''ValueError'' ''max_workers must be greater than 0''"

fun str_exn :: "exn \<Rightarrow> string" where
  "str_exn (Raised cls msg) = msg"

datatype frame =
    TextFrame string "string list"
      \<comment> \<open>a text frame (TIT2, TALB, TPE1, TPE2, ...): its frame id and its \<open>text\<close> list\<close>
  | USLT nat string string string
      \<comment> \<open>\<open>USLT(encoding, lang, desc, text)\<close>\<close>
  | OtherFrame string string
      \<comment> \<open>any other frame: its frame id and its payload\<close>

fun is_USLT :: "frame \<Rightarrow> bool" where
  \<comment> \<open>\<open>isinstance(f, USLT)\<close>\<close>
  "is_USLT (USLT enc l d t) = True"
| "is_USLT f = False"

fun HashKey :: "frame \<Rightarrow> string" where
  \<comment> \<open>the key under which the container holds a frame: the frame id, and for a lyrics
      frame \<open>USLT:desc:lang\<close>\<close>
  "HashKey (TextFrame fid txt) = fid"
| "HashKey (USLT enc l d t) = ''USLT:'' @ d @ '':'' @ l"
| "HashKey (OtherFrame fid payload) = fid"

fun text0 :: "frame \<Rightarrow> exn + string" where
  \<comment> \<open>\<open>frame.text[0]\<close>: indexing an empty list (or an empty \<open>str\<close>) raises IndexError\<close>
  "text0 (TextFrame fid []) = Inl IndexError"
| "text0 (TextFrame fid (x # xs)) = Inr x"
| "text0 (USLT enc l d []) = Inl (Raised ''IndexError'' ''string index out of range'')"
| "text0 (USLT enc l d (c # cs)) = Inr [c]"
| "text0 (OtherFrame fid payload) = Inl AttributeError"

type_synonym id3 = "(string \<times> frame) list"
  \<comment> \<open>the tag container \<open>audio.tags\<close>: a dict from HashKey to frame, in insertion order;
      \<open>tags.get(k)\<close> is \<open>map_of tags k\<close>, \<open>tags.values()\<close> is \<open>map snd tags\<close>\<close>

definition add :: "id3 \<Rightarrow> frame \<Rightarrow> id3" where
  \<comment> \<open>\<open>tags.add(frame)\<close>, that is \<open>tags[frame.HashKey] = frame\<close>: the frame under the same key
      is replaced in place, a new key is appended\<close>
  "add tgs f = AList.update (HashKey f) f tgs"

record audio =
  tags :: "id3 option"
  save_error :: "exn option"

text \<open>
  \<open>tags\<close> is \<open>audio.tags\<close>, None for a file without an ID3 tag; \<open>save_error\<close> is what
  \<open>audio.save()\<close> raises on this file, None when the save succeeds.
\<close>

datatype genius_reply =
    Search_Raises exn
  | No_Song
  | Song string

text \<open>
  The outcome of \<open>genius.search_song(t, a)\<close>: it raised, it returned None, or it returned a
  song with this \<open>lyrics\<close> text.
\<close>

datatype pytype = Py_int | Py_float | Py_bool | Py_list | Py_dict

datatype pyobj =
    PyNone
  | PyStr string
  | PyOther pytype bool

text \<open>
  A Python object as the resolver passes it on: None, a \<open>str\<close>, or an object of another
  type. The value of a field of a JSON document is such an object: \<open>null\<close> is None, a
  string is a \<open>str\<close>, and a number, a boolean, an array or an object is an \<open>int\<close> or a
  \<open>float\<close>, a \<open>bool\<close>, a \<open>list\<close> or a \<open>dict\<close>. Of an object that is not a \<open>str\<close> the
  program observes two things, and \<open>PyOther\<close> keeps them: its type and its truth value
  (a number is true when it is not zero, a list or a dict when it is not empty).
\<close>

fun truth :: "pyobj \<Rightarrow> bool" where
  \<comment> \<open>the truth value that \<open>if x:\<close> and \<open>not x\<close> test\<close>
  "truth PyNone = False"
| "truth (PyStr s) = (s \<noteq> [])"
| "truth (PyOther ty b) = b"

fun type_name :: "pyobj \<Rightarrow> string" where
  \<comment> \<open>\<open>type(x).__name__\<close>\<close>
  "type_name PyNone = ''NoneType''"
| "type_name (PyStr s) = ''str''"
| "type_name (PyOther Py_int b) = ''int''"
| "type_name (PyOther Py_float b) = ''float''"
| "type_name (PyOther Py_bool b) = ''bool''"
| "type_name (PyOther Py_list b) = ''list''"
| "type_name (PyOther Py_dict b) = ''dict''"

datatype http_reply =
    Get_Raises exn
  | Response int "exn + pyobj"

text \<open>
  The outcome of \<open>requests.get(url, timeout=5)\<close>: it raised (network error, timeout), or it
  gave a response with a \<open>status_code\<close> and with what \<open>r.json().get("lyrics")\<close> evaluates to:
  an exception (the body is not JSON, or the document has no method \<open>get\<close>), or the value
  of the field, whatever its type, None when the document has no such field.
\<close>

datatype level = DEBUG | INFO | WARNING | ERROR

datatype event =
    Log level string
  | Genius_Search string string genius_reply
  | Http_Get string http_reply
  | Save string id3 "exn option"

text \<open>
  What a run does, in order: a record sent to the logger; a call
  \<open>genius.search_song(t, a)\<close> with its outcome; a call \<open>requests.get(url, timeout=5)\<close> with its
  outcome; a call \<open>audio.save()\<close> for the file at a path, with the tags it writes and what it
  raised.
\<close>

datatype fs_node = File | Dir "(string \<times> fs_node) list"

record world =
  tree :: "string \<Rightarrow> fs_node option"
  disk :: "string \<Rightarrow> exn + audio"
  trace :: "event list"

text \<open>
  \<open>tree\<close>: what a path names (nothing, a file, or a directory with its entries);
  \<open>disk\<close>: what \<open>MP3(path, ID3=ID3)\<close> gives (an exception or the audio);
  \<open>trace\<close>: everything done so far, oldest first.
\<close>

type_synonym genius_client = "event list \<Rightarrow> string \<Rightarrow> string \<Rightarrow> genius_reply"
  \<comment> \<open>the primary provider: its answer to \<open>search_song(title, artist)\<close> may depend on
      everything done before\<close>

type_synonym http = "event list \<Rightarrow> string \<Rightarrow> http_reply"
  \<comment> \<open>the network: the answer to a GET of a URL, which may depend on everything done before\<close>

definition log :: "level \<Rightarrow> string \<Rightarrow> world \<Rightarrow> world" where
  "log lv msg w = w\<lparr>trace := trace w @ [Log lv msg]\<rparr>"

definition emit :: "event \<Rightarrow> world \<Rightarrow> world" where
  "emit e w = w\<lparr>trace := trace w @ [e]\<rparr>"

section \<open>Formatting\<close>

fun str_nat :: "nat \<Rightarrow> string" where
  \<comment> \<open>\<open>str(n)\<close> for \<open>n \<ge> 0\<close>\<close>
  "str_nat n =
     (if n < 10 then [char_of (48 + n)]
      else str_nat (n div 10) @ [char_of (48 + n mod 10)])"

declare str_nat.simps [simp del]

definition str_int :: "int \<Rightarrow> string" where
  "str_int i = (if i < 0 then CHR ''-'' # str_nat (nat (- i)) else str_nat (nat i))"

definition hex_digit :: "nat \<Rightarrow> char" where
  "hex_digit n = (if n < 10 then char_of (48 + n) else char_of (55 + n))"

definition percent :: "nat \<Rightarrow> string" where
  "percent b = [CHR ''%'', hex_digit (b div 16), hex_digit (b mod 16)]"

definition quote_char :: "char \<Rightarrow> string" where
  \<comment> \<open>\<open>requests.utils.quote\<close> on one character: letters, digits, \<open>_ . - ~\<close> and the safe
      \<open>/\<close> stay, every other character becomes the percent-escapes of its UTF-8 bytes\<close>
  "quote_char c =
     (let n = (of_char c :: nat)
      in if (48 \<le> n \<and> n \<le> 57) \<or> (65 \<le> n \<and> n \<le> 90) \<or> (97 \<le> n \<and> n \<le> 122)
            \<or> n = 95 \<or> n = 46 \<or> n = 45 \<or> n = 126 \<or> n = 47 then [c]
         else if n < 128 then percent n
         else percent (192 + n div 64) @ percent (128 + n mod 64))"

definition quote :: "string \<Rightarrow> string" where
  "quote s = concat (map quote_char s)"

definition quoted :: "string \<Rightarrow> string" where
  \<comment> \<open>a value between single quotes, as the log messages print it\<close>
  "quoted s = [CHR 0x27] @ s @ [CHR 0x27]"

section \<open>The fallback provider: \<open>fetch_lyrics_ovh\<close>\<close>

definition ovh_url :: "string \<Rightarrow> string \<Rightarrow> string" where
  "ovh_url title artist = ''https://api.lyrics.ovh/v1/'' @ quote artist @ ''/'' @ quote title"

definition fetch_lyrics_ovh :: "http \<Rightarrow> string \<Rightarrow> string \<Rightarrow> world \<Rightarrow> pyobj \<times> world" where
  \<comment> \<open>line 63 returns the value of the field \<open>lyrics\<close> as it is, of whatever type\<close>
  "fetch_lyrics_ovh net title artist w =
     (let url = ovh_url title artist;
          w = log INFO (''OVH lookup for '' @ quoted title @ '' by '' @ quoted artist) w;
          r = net (trace w) url;
          w = emit (Http_Get url r) w
      in case r of
           Get_Raises e \<Rightarrow> (PyNone, log WARNING (''OVH failed: '' @ str_exn e) w)
         | Response status_code body \<Rightarrow>
             (let w = log DEBUG (''OVH HTTP '' @ str_int status_code @ '' for '' @ artist
                                 @ '' - '' @ title) w
              in if status_code = 200 then
                   (case body of
                      Inl e \<Rightarrow> (PyNone, log WARNING (''OVH failed: '' @ str_exn e) w)
                    | Inr lyr \<Rightarrow> (lyr, w))
                 else (PyNone, w)))"

section \<open>The lyric resolver: \<open>get_raw_lyrics\<close>\<close>

datatype source = Genius | Ovh
  \<comment> \<open>the second component of the result, \<open>"genius"\<close> or \<open>"ovh"\<close>\<close>

fun source_upper :: "source \<Rightarrow> string" where
  \<comment> \<open>\<open>source.upper()\<close>\<close>
  "source_upper Genius = ''GENIUS''"
| "source_upper Ovh = ''OVH''"

fun truthy :: "string option \<Rightarrow> bool" where
  \<comment> \<open>the truth value of an optional \<open>str\<close>: None and the empty string are false\<close>
  "truthy None = False"
| "truthy (Some s) = (s \<noteq> [])"

definition variants ::
  "string \<Rightarrow> string \<Rightarrow> string option \<Rightarrow> string option \<Rightarrow> (string \<times> string) list" where
  \<comment> \<open>lines 78 to 84\<close>
  "variants title artist alt_title alt_artist =
     [(title, artist)]
     @ (case alt_artist of Some a2 \<Rightarrow> if a2 \<noteq> [] then [(title, a2)] else [] | None \<Rightarrow> [])
     @ (case alt_title of Some t2 \<Rightarrow> if t2 \<noteq> [] then [(t2, artist)] else [] | None \<Rightarrow> [])
     @ (case (alt_title, alt_artist) of
          (Some t2, Some a2) \<Rightarrow> if t2 \<noteq> [] \<and> a2 \<noteq> [] then [(t2, a2)] else []
        | _ \<Rightarrow> [])"

fun genius_loop :: "genius_client \<Rightarrow> (string \<times> string) list \<Rightarrow> world \<Rightarrow> string option \<times> world" where
  \<comment> \<open>the loop of lines 87 to 94: the lyrics returned at line 92, or None when the loop
      runs to its end\<close>
  "genius_loop g [] w = (None, w)"
| "genius_loop g ((t, a) # vs) w =
     (let w = log INFO (''Trying Genius for '' @ quoted t @ '' by '' @ quoted a) w;
          r = g (trace w) t a;
          w = emit (Genius_Search t a r) w
      in case r of
           Song lyr \<Rightarrow> if lyr \<noteq> [] then (Some lyr, w) else genius_loop g vs w
         | No_Song \<Rightarrow> genius_loop g vs w
         | Search_Raises e \<Rightarrow>
             genius_loop g vs (log DEBUG (''Genius error: '' @ str_exn e) w))"

fun ovh_loop :: "http \<Rightarrow> (string \<times> string) list \<Rightarrow> world \<Rightarrow> pyobj option \<times> world" where
  \<comment> \<open>the loop of lines 98 to 101: the object returned at line 101, or None when the loop
      runs to its end\<close>
  "ovh_loop net [] w = (None, w)"
| "ovh_loop net ((t, a) # vs) w =
     (case fetch_lyrics_ovh net t a w of
        (lyr, w) \<Rightarrow> if truth lyr then (Some lyr, w) else ovh_loop net vs w)"

definition get_raw_lyrics ::
  "http \<Rightarrow> string \<Rightarrow> string \<Rightarrow> genius_client option \<Rightarrow> bool \<Rightarrow> string option \<Rightarrow> string option
   \<Rightarrow> world \<Rightarrow> (pyobj \<times> source option) \<times> world" where
  "get_raw_lyrics net title artist genius use_genius alt_title alt_artist w =
     (let vs = variants title artist alt_title alt_artist;
          (found, w) =
            (case genius of
               Some g \<Rightarrow> if use_genius then genius_loop g vs w
                         else (None, log INFO ''Genius lookup skipped'' w)
             | None \<Rightarrow> (None, log INFO ''Genius lookup skipped'' w))
      in case found of
           Some lyr \<Rightarrow> ((PyStr lyr, Some Genius), w)
         | None \<Rightarrow>
             (case ovh_loop net vs w of
                (Some lyr, w) \<Rightarrow> ((lyr, Some Ovh), w)
              | (None, w) \<Rightarrow> ((PyNone, None), w)))"

section \<open>The per-file job: \<open>add_lyrics_to_file\<close>\<close>

fun first_text :: "id3 \<Rightarrow> string list \<Rightarrow> exn + string option" where
  \<comment> \<open>\<open>next((tags.get(f).text[0] for f in fields if tags.get(f)), None)\<close>. A frame object
      defines neither \<open>__bool__\<close> nor \<open>__len__\<close>, so \<open>tags.get(f)\<close> is true exactly when the
      container holds a frame under \<open>f\<close>.\<close>
  "first_text tgs [] = Inr None"
| "first_text tgs (f # fs) =
     (case map_of tgs f of
        None \<Rightarrow> first_text tgs fs
      | Some fr \<Rightarrow> (case text0 fr of Inl e \<Rightarrow> Inl e | Inr s \<Rightarrow> Inr (Some s)))"

definition the_tags :: "audio \<Rightarrow> id3" where
  \<comment> \<open>lines 115 to 117: \<open>audio.tags\<close>, after \<open>audio.add_tags()\<close> made an empty container for a
      file that had none\<close>
  "the_tags au = (case tags au of None \<Rightarrow> [] | Some t \<Rightarrow> t)"

definition no_attribute :: "pyobj \<Rightarrow> string \<Rightarrow> exn" where
  \<comment> \<open>the exception of \<open>x.attr\<close> on an object whose type has no such attribute\<close>
  "no_attribute x attr =
     Raised ''AttributeError''
       (quoted (type_name x) @ '' object has no attribute '' @ quoted attr)"

definition write_lyrics ::
  "string \<Rightarrow> audio \<Rightarrow> id3 \<Rightarrow> string \<Rightarrow> pyobj \<times> source option \<Rightarrow> world \<Rightarrow> (exn + bool) \<times> world" where
  \<comment> \<open>lines 133 to 148, with the file's path, the opened audio, its tags, the title and the
      resolver's result. Line 136 calls \<open>clean_lyrics(raw)\<close>, whose first statement is
      \<open>raw.splitlines()\<close> (line 30): on an object that is not a \<open>str\<close> it raises
      AttributeError, outside every \<open>try\<close>.\<close>
  "write_lyrics path au tgs title res w =
     (case res of (raw, src) \<Rightarrow>
      if \<not> truth raw then (Inr False, log WARNING ''No lyrics found.'' w)
      else
        (case raw of
           PyStr s \<Rightarrow>
             (let cleaned = clean_lyrics s
              in if cleaned = [] then (Inr False, log WARNING ''Cleaned lyrics empty.'' w)
                 else
                   (let tgs = add tgs (USLT 3 ''eng'' [] cleaned);
                        w = emit (Save path tgs (save_error au)) w
                    in case save_error au of
                         None \<Rightarrow>
                           (Inr True,
                            log INFO (''Saved using '' @ source_upper (the src) @ '' for ''
                                      @ quoted title @ ''.'')
                              (w\<lparr>disk := (disk w)(path := Inr (au\<lparr>tags := Some tgs\<rparr>))\<rparr>))
                       | Some e \<Rightarrow> (Inr False, log ERROR (''Save failure: '' @ str_exn e) w)))
         | _ \<Rightarrow> (Inl (no_attribute raw ''splitlines''), w)))"

definition add_lyrics_to_file ::
  "http \<Rightarrow> string \<Rightarrow> genius_client option \<Rightarrow> bool \<Rightarrow> bool \<Rightarrow> world \<Rightarrow> (exn + bool) \<times> world" where
  \<comment> \<open>\<open>Inr b\<close>: the job returns \<open>b\<close>; \<open>Inl e\<close>: the exception \<open>e\<close> leaves the function\<close>
  "add_lyrics_to_file net path genius use_genius overwrite w =
     (let w = log INFO (''Processing file: '' @ path) w
      in case disk w path of
           Inl e \<Rightarrow> (Inr False, log ERROR (''Open failure: '' @ str_exn e) w)
         | Inr au \<Rightarrow>
             (let tgs = the_tags au
              in if \<not> overwrite \<and> list_ex is_USLT (map snd tgs)
                 then (Inr False, log INFO ''Existing lyrics; skipping.'' w)
                 else
                   (case first_text tgs [''TIT2'', ''TALB''] of
                      Inl e \<Rightarrow> (Inl e, w)
                    | Inr title \<Rightarrow>
                   (case first_text tgs [''TPE1'', ''TPE2''] of
                      Inl e \<Rightarrow> (Inl e, w)
                    | Inr artist \<Rightarrow>
                   if \<not> truthy title \<or> \<not> truthy artist
                   then (Inr False, log WARNING ''Missing title/artist metadata.'' w)
                   else
                   (case first_text tgs [''TALB''] of
                      Inl e \<Rightarrow> (Inl e, w)
                    | Inr alt_title \<Rightarrow>
                   (case first_text tgs [''TPE2''] of
                      Inl e \<Rightarrow> (Inl e, w)
                    | Inr alt_artist \<Rightarrow>
                   (case get_raw_lyrics net (the title) (the artist) genius use_genius
                           alt_title alt_artist w of
                      (res, w) \<Rightarrow> write_lyrics path au tgs (the title) res w)))))))"

section \<open>The scanner and dispatcher: \<open>process_path\<close>\<close>

definition os_path_join :: "string \<Rightarrow> string \<Rightarrow> string" where
  \<comment> \<open>\<open>os.path.join(a, b)\<close> on POSIX\<close>
  "os_path_join a b =
     (if startswith b ''/'' then b
      else if a = [] \<or> endswith a ''/'' then a @ b
      else a @ ''/'' @ b)"

definition is_mp3 :: "string \<Rightarrow> bool" where
  \<comment> \<open>\<open>name.lower().endswith(".mp3")\<close>\<close>
  "is_mp3 name = endswith (lower name) ''.mp3''"

fun os_walk :: "string \<Rightarrow> (string \<times> fs_node) list \<Rightarrow> (string \<times> string list \<times> string list) list"
  and walk_subdirs :: "string \<Rightarrow> (string \<times> fs_node) list \<Rightarrow> (string \<times> string list \<times> string list) list"
  where
  "os_walk dirpath entries =
     (dirpath, [n. (n, Dir sub) \<leftarrow> entries], [n. (n, File) \<leftarrow> entries]) # walk_subdirs dirpath entries"
| "walk_subdirs dirpath [] = []"
| "walk_subdirs dirpath ((n, File) # entries) = walk_subdirs dirpath entries"
| "walk_subdirs dirpath ((n, Dir sub) # entries) =
     os_walk (os_path_join dirpath n) sub @ walk_subdirs dirpath entries"

text \<open>
  \<open>os_walk dirpath entries\<close> is \<open>os.walk(dirpath)\<close> for a directory with these entries, top down: the
  triple (directory path, names of its subdirectories, names of its files) of the directory
  first, then the walks of its subdirectories in order.
\<close>

definition mp3s :: "(string \<Rightarrow> fs_node option) \<Rightarrow> string \<Rightarrow> string list option" where
  \<comment> \<open>lines 154 to 164: the list \<open>mp3s\<close> that is queued, None when the path is refused\<close>
  "mp3s tr root =
     (case tr root of
        Some (Dir entries) \<Rightarrow>
          Some (concat (map (\<lambda>(dp, ds, fs). map (os_path_join dp) (filter is_mp3 fs))
                            (os_walk root entries)))
      | _ \<Rightarrow> if is_mp3 root then Some [root] else None)"

fun run_jobs ::
  "http \<Rightarrow> genius_client option \<Rightarrow> bool \<Rightarrow> bool \<Rightarrow> string list \<Rightarrow> world \<Rightarrow> world" where
  \<comment> \<open>lines 166 to 175 in one schedule of the pool: the jobs run one after the other in the
      order of the queue, and the main thread takes the result of a job before the next
      job starts. The pool may also run jobs side by side, and the events of different
      jobs then come interleaved; with a single job in the queue this schedule is the only
      one. An exception that leaves a job is raised again by \<open>fut.result()\<close> and caught
      there.\<close>
  "run_jobs net genius use_genius overwrite [] w = w"
| "run_jobs net genius use_genius overwrite (f # fs) w =
     (case add_lyrics_to_file net f genius use_genius overwrite w of
        (Inl e, w) \<Rightarrow> run_jobs net genius use_genius overwrite fs (log ERROR ''Thread error.'' w)
      | (Inr b, w) \<Rightarrow> run_jobs net genius use_genius overwrite fs w)"

definition process_path ::
  "http \<Rightarrow> string \<Rightarrow> genius_client option \<Rightarrow> bool \<Rightarrow> bool \<Rightarrow> int \<Rightarrow> world \<Rightarrow> (exn + unit) \<times> world" where
  "process_path net root genius use_genius overwrite threads w =
     (case mp3s (tree w) root of
        None \<Rightarrow> (Inr (), log ERROR ''Invalid path.'' w)
      | Some queue \<Rightarrow>
          (let w = log INFO (''Queueing '' @ str_nat (length queue) @ '' files (threads=''
                             @ str_int threads @ '').'') w
           in if threads \<le> 0 then (Inl ValueError, w)
              else (Inr (), run_jobs net genius use_genius overwrite queue w)))"

section \<open>Reading a trace\<close>

definition since :: "world \<Rightarrow> world \<Rightarrow> event list" where
  \<comment> \<open>what was done between an earlier world and a later one\<close>
  "since w w' = drop (length (trace w)) (trace w')"

fun genius_calls :: "event list \<Rightarrow> ((string \<times> string) \<times> genius_reply) list" where
  \<comment> \<open>the (title, artist) pairs asked of the primary provider, in order, with the outcomes\<close>
  "genius_calls [] = []"
| "genius_calls (Genius_Search t a r # es) = ((t, a), r) # genius_calls es"
| "genius_calls (e # es) = genius_calls es"

fun http_calls :: "event list \<Rightarrow> (string \<times> http_reply) list" where
  \<comment> \<open>the URLs requested, in order, with the outcomes\<close>
  "http_calls [] = []"
| "http_calls (Http_Get url r # es) = (url, r) # http_calls es"
| "http_calls (e # es) = http_calls es"

fun saves :: "event list \<Rightarrow> (string \<times> id3 \<times> exn option) list" where
  \<comment> \<open>the calls of \<open>audio.save()\<close>, in order\<close>
  "saves [] = []"
| "saves (Save p tgs err # es) = (p, tgs, err) # saves es"
| "saves (e # es) = saves es"

fun genius_ok :: "genius_reply \<Rightarrow> bool" where
  \<comment> \<open>\<open>song and song.lyrics\<close>: the primary provider returned a non-empty result\<close>
  "genius_ok (Song lyr) = (lyr \<noteq> [])"
| "genius_ok r = False"

fun ovh_ok :: "http_reply \<Rightarrow> bool" where
  \<comment> \<open>the fallback provider returned a non-empty result: status 200 and a value of
      \<open>lyrics\<close> that line 100 takes as true\<close>
  "ovh_ok (Response code (Inr lyr)) = (code = 200 \<and> truth lyr)"
| "ovh_ok r = False"

definition tried_in_order :: "('q \<times> 'r) list \<Rightarrow> 'q list \<Rightarrow> ('r \<Rightarrow> bool) \<Rightarrow> bool" where
  \<comment> \<open>the calls made are the first few of the variants, in their order, and no call follows
      one with a non-empty result\<close>
  "tried_in_order calls vs ok =
     (length calls \<le> length vs \<and> map fst calls = take (length calls) vs
      \<and> list_all (\<lambda>c. \<not> ok (snd c)) (butlast calls))"

definition until_success :: "('q \<times> 'r) list \<Rightarrow> 'q list \<Rightarrow> ('r \<Rightarrow> bool) \<Rightarrow> bool" where
  \<comment> \<open>the variants are tried in order until one gives a non-empty result or all are used\<close>
  "until_success calls vs ok =
     (tried_in_order calls vs ok
      \<and> (length calls = length vs \<or> (calls \<noteq> [] \<and> ok (snd (last calls)))))"

definition provided :: "string \<Rightarrow> event list \<Rightarrow> bool" where
  \<comment> \<open>the text is the lyrics a provider returned in one of the calls\<close>
  "provided raw es =
     (list_ex (\<lambda>c. snd c = Song raw) (genius_calls es)
      \<or> list_ex (\<lambda>c. snd c = Response 200 (Inr (PyStr raw))) (http_calls es))"

fun has_text :: "id3 \<Rightarrow> string \<Rightarrow> bool" where
  \<comment> \<open>a frame under this key, if there is one, has a first text value\<close>
  "has_text tgs f = (case map_of tgs f of None \<Rightarrow> True | Some fr \<Rightarrow> (case text0 fr of Inl e \<Rightarrow> False | Inr s \<Rightarrow> True))"

definition texts_ok :: "id3 \<Rightarrow> bool" where
  "texts_ok tgs = list_all (has_text tgs) [''TIT2'', ''TALB'', ''TPE1'', ''TPE2'']"

inductive in_tree :: "string \<Rightarrow> (string \<times> fs_node) list \<Rightarrow> string \<Rightarrow> string \<Rightarrow> bool" where
  \<comment> \<open>\<open>in_tree top entries dp f\<close>: below the directory \<open>top\<close> with these entries, at any
      depth, the directory \<open>dp\<close> holds a file named \<open>f\<close>\<close>
  here: "(f, File) \<in> set entries \<Longrightarrow> in_tree dirpath entries dirpath f"
| below: "(n, Dir sub) \<in> set entries \<Longrightarrow> in_tree (os_path_join dirpath n) sub dp f
          \<Longrightarrow> in_tree dirpath entries dp f"

definition extends :: "world \<Rightarrow> event list \<Rightarrow> world \<Rightarrow> bool" where
  \<comment> \<open>the later world is the earlier one with these events added to its trace\<close>
  "extends w es w' = (w' = w\<lparr>trace := trace w @ es\<rparr>)"

section \<open>Example worlds\<close>

text \<open>
  Concrete files, directories and providers, on which the theorems below are evaluated:
  one file \<open>song.mp3\<close> with given tags; a fallback provider that knows one song; a primary
  provider that knows the songs of one band; a directory \<open>music\<close>; servers that answer with
  a \<open>lyrics\<close> field that is not a string.
\<close>

definition demo_world :: "id3 option \<Rightarrow> exn option \<Rightarrow> world" where
  "demo_world tgs err =
     \<lparr>tree = (\<lambda>p. None),
      disk = (\<lambda>p. if p = ''song.mp3'' then Inr \<lparr>tags = tgs, save_error = err\<rparr>
                   else Inl (Raised ''MutagenError'' ''No such file or directory'')),
      trace = []\<rparr>"

definition demo_net :: http where
  "demo_net h url =
     (if url = ovh_url ''Title'' ''Artist'' then Response 200 (Inr (PyStr ''en||la la la''))
      else Response 404 (Inr PyNone))"

definition demo_genius :: genius_client where
  "demo_genius h t a = (if a = ''Band'' then Song ''You and me'' else No_Song)"

definition demo_tags :: id3 where
  "demo_tags = [(''TIT2'', TextFrame ''TIT2'' [''Title'']), (''TPE1'', TextFrame ''TPE1'' [''Artist''])]"

definition lyrics_in_other_language :: id3 where
  "lyrics_in_other_language = demo_tags @ [(''USLT::XXX'', USLT 1 ''XXX'' [] ''old words'')]"

definition job_demo :: "(exn + bool) \<times> world" where
  "job_demo = add_lyrics_to_file demo_net ''song.mp3'' None False False
                (demo_world (Some demo_tags) None)"

definition skip_demo :: "(exn + bool) \<times> world" where
  "skip_demo = add_lyrics_to_file demo_net ''song.mp3'' None False False
                 (demo_world (Some lyrics_in_other_language) None)"

definition overwrite_demo :: "(exn + bool) \<times> world" where
  "overwrite_demo = add_lyrics_to_file demo_net ''song.mp3'' None False True
                      (demo_world (Some lyrics_in_other_language) None)"

definition demo_tree :: "string \<Rightarrow> fs_node option" where
  "demo_tree p =
     (if p = ''music'' then
        Some (Dir [(''song.mp3'', File), (''notes.txt'', File),
                   (''live'', Dir [(''Encore.MP3'', File)])])
      else None)"

definition demo_disk :: "string \<Rightarrow> exn + audio" where
  "demo_disk p =
     (if p = ''music/song.mp3'' then Inr \<lparr>tags = Some demo_tags, save_error = None\<rparr>
      else if p = ''music/live/Encore.MP3'' then Inr \<lparr>tags = None, save_error = None\<rparr>
      else Inl (Raised ''MutagenError'' ''No such file or directory''))"

definition dispatch_world :: world where
  "dispatch_world = \<lparr>tree = demo_tree, disk = demo_disk, trace = []\<rparr>"

definition album_net :: http where
  "album_net h url =
     (if url = ovh_url ''Album'' ''Artist'' then Response 200 (Inr (PyStr ''words''))
      else Response 404 (Inr PyNone))"

definition resolver_world :: world where
  "resolver_world = \<lparr>tree = (\<lambda>p. None), disk = (\<lambda>p. Inl (Raised ''MutagenError'' ''no file'')),
                     trace = []\<rparr>"

definition genius_demo :: "(pyobj \<times> source option) \<times> world" where
  "genius_demo = get_raw_lyrics album_net ''Title'' ''Artist'' (Some demo_genius) True
                   (Some ''Album'') (Some ''Band'') resolver_world"

definition ovh_demo :: "(pyobj \<times> source option) \<times> world" where
  "ovh_demo = get_raw_lyrics album_net ''Title'' ''Artist'' None False
                   (Some ''Album'') (Some ''Band'') resolver_world"

definition silent_genius_demo :: "(pyobj \<times> source option) \<times> world" where
  "silent_genius_demo = get_raw_lyrics album_net ''Title'' ''Artist'' (Some (\<lambda>h t a. No_Song)) True
                   (Some ''Album'') None resolver_world"

definition number_net :: http where
  \<comment> \<open>a server that answers every request with status 200 and the document
      \<open>{"lyrics": 1}\<close>\<close>
  "number_net h url = Response 200 (Inr (PyOther Py_int True))"

definition single_file_world :: world where
  \<comment> \<open>the file \<open>song.mp3\<close>, with a title and an artist and no lyrics, and nothing else\<close>
  "single_file_world =
     \<lparr>tree = (\<lambda>p. if p = ''song.mp3'' then Some File else None),
      disk = (\<lambda>p. if p = ''song.mp3'' then Inr \<lparr>tags = Some demo_tags, save_error = None\<rparr>
                   else Inl (Raised ''MutagenError'' ''No such file or directory'')),
      trace = []\<rparr>"

definition number_demo :: "(exn + bool) \<times> world" where
  "number_demo = add_lyrics_to_file number_net ''song.mp3'' None False False single_file_world"

definition number_dispatch :: "(exn + unit) \<times> world" where
  "number_dispatch = process_path number_net ''song.mp3'' None False False 4 single_file_world"

definition list_net :: http where
  \<comment> \<open>a server that answers the request for the song with status 200 and the document
      \<open>{"lyrics": ["la la la"]}\<close>\<close>
  "list_net h url =
     (if url = ovh_url ''Title'' ''Artist'' then Response 200 (Inr (PyOther Py_list True))
      else Response 404 (Inr PyNone))"

definition list_demo :: "(exn + bool) \<times> world" where
  "list_demo = add_lyrics_to_file list_net ''song.mp3'' (Some demo_genius) True False
                 single_file_world"

definition album_tags :: id3 where
  \<comment> \<open>no title frame; the album and the artist are there\<close>
  "album_tags = [(''TALB'', TextFrame ''TALB'' [''Album'']), (''TPE1'', TextFrame ''TPE1'' [''Artist''])]"

definition empty_title_tags :: id3 where
  \<comment> \<open>the same, with a title frame whose text is the empty string\<close>
  "empty_title_tags = (''TIT2'', TextFrame ''TIT2'' [[]]) # album_tags"

definition album_demo :: "(exn + bool) \<times> world" where
  "album_demo = add_lyrics_to_file album_net ''song.mp3'' None False False
                  (demo_world (Some album_tags) None)"

definition empty_title_demo :: "(exn + bool) \<times> world" where
  "empty_title_demo = add_lyrics_to_file album_net ''song.mp3'' None False False
                        (demo_world (Some empty_title_tags) None)"


section \<open>Properties of the string primitives\<close>

lemma startswith_iff: "startswith s p \<longleftrightarrow> (\<exists>q. s = p @ q)"
  unfolding startswith_def
  by (metis append_eq_conv_conj append_take_drop_id)

lemma contains_iff: "contains sub s \<longleftrightarrow> (\<exists>p q. s = p @ sub @ q)"
proof (induction s)
  case Nil
  then show ?case by auto
next
  case (Cons c cs)
  show ?case
  proof
    assume "contains sub (c # cs)"
    then consider "startswith (c # cs) sub" | "contains sub cs" by auto
    then show "\<exists>p q. c # cs = p @ sub @ q"
    proof cases
      case 1
      then obtain q where "c # cs = sub @ q" by (auto simp: startswith_iff)
      then have "c # cs = [] @ sub @ q" by simp
      then show ?thesis by blast
    next
      case 2
      then obtain p q where "cs = p @ sub @ q" using Cons.IH by blast
      then have "c # cs = (c # p) @ sub @ q" by simp
      then show ?thesis by blast
    qed
  next
    assume "\<exists>p q. c # cs = p @ sub @ q"
    then obtain p q where pq: "c # cs = p @ sub @ q" by blast
    show "contains sub (c # cs)"
    proof (cases p)
      case Nil
      then have "startswith (c # cs) sub" using pq by (auto simp: startswith_iff)
      then show ?thesis by simp
    next
      case (Cons a p')
      then have "cs = p' @ sub @ q" using pq by simp
      then show ?thesis using Cons.IH by auto
    qed
  qed
qed

lemma contains_append: "contains sub s \<Longrightarrow> contains sub (a @ s @ b)"
proof -
  assume "contains sub s"
  then obtain p q where "s = p @ sub @ q" unfolding contains_iff by blast
  then have "a @ s @ b = (a @ p) @ sub @ (q @ b)" by simp
  then show ?thesis unfolding contains_iff by blast
qed

lemma dropWhile_hd_id: "xs = [] \<or> \<not> P (hd xs) \<Longrightarrow> dropWhile P xs = xs"
  by (cases xs) auto

lemma dropWhile_rev_id: "xs = [] \<or> \<not> P (last xs) \<Longrightarrow> dropWhile P (rev xs) = rev xs"
  by (cases xs rule: rev_cases) auto

lemma trim_ends:
  fixes P :: "'a \<Rightarrow> bool"
  defines "e \<equiv> (\<lambda>xs. rev (dropWhile P (rev (dropWhile P xs))))"
  shows "e xs = [] \<or> (\<not> P (hd (e xs)) \<and> \<not> P (last (e xs)))"
proof -
  define d where "d = dropWhile P xs"
  have ed: "e xs = rev (dropWhile P (rev d))" by (simp add: e_def d_def)
  show ?thesis
  proof (cases "e xs = []")
    case True then show ?thesis by simp
  next
    case False
    then have ne: "dropWhile P (rev d) \<noteq> []" by (simp add: ed)
    then have "\<not> P (hd (dropWhile P (rev d)))" by (rule hd_dropWhile)
    then have l: "\<not> P (last (e xs))" using ne by (simp add: ed last_rev)
    have "rev d = takeWhile P (rev d) @ dropWhile P (rev d)" by simp
    then have "rev (rev d) = rev (takeWhile P (rev d) @ dropWhile P (rev d))" by (rule arg_cong)
    then have dd: "d = e xs @ rev (takeWhile P (rev d))" by (simp only: rev_rev_ident rev_append ed)
    with False have "hd (e xs) = hd d" by (metis hd_append2)
    moreover from dd False have "d \<noteq> []" by auto
    then have "\<not> P (hd d)" unfolding d_def by (rule hd_dropWhile)
    ultimately show ?thesis using l by simp
  qed
qed

lemma trim_idem:
  "rev (dropWhile P (rev (dropWhile P (rev (dropWhile P (rev (dropWhile P xs)))))))
     = rev (dropWhile P (rev (dropWhile P xs)))"
proof -
  define e where "e = rev (dropWhile P (rev (dropWhile P xs)))"
  have "e = [] \<or> (\<not> P (hd e) \<and> \<not> P (last e))"
    unfolding e_def by (rule trim_ends)
  then have "dropWhile P e = e" and "dropWhile P (rev e) = rev e"
    by (auto intro: dropWhile_hd_id dropWhile_rev_id)
  then have "rev (dropWhile P (rev (dropWhile P e))) = e" by simp
  then show ?thesis by (simp only: e_def)
qed

lemma strip_idem: "strip (strip s) = strip s"
  unfolding strip_def by (rule trim_idem)


lemma set_trim: "set (rev (dropWhile P (rev (dropWhile Q xs)))) \<subseteq> set xs"
proof
  fix x assume "x \<in> set (rev (dropWhile P (rev (dropWhile Q xs))))"
  then have "x \<in> set (dropWhile P (rev (dropWhile Q xs)))" by simp
  then have "x \<in> set (rev (dropWhile Q xs))" by (rule set_dropWhileD)
  then have "x \<in> set (dropWhile Q xs)" by simp
  then show "x \<in> set xs" by (rule set_dropWhileD)
qed

lemma set_strip: "set (strip s) \<subseteq> set s"
  unfolding strip_def by (rule set_trim)

lemma strip_decomp: "\<exists>a b. s = a @ strip s @ b"
proof -
  define t where "t = dropWhile is_space s"
  have 1: "s = takeWhile is_space s @ t" by (simp add: t_def)
  have "rev (dropWhile is_space (rev t)) @ rev (takeWhile is_space (rev t))
          = rev (takeWhile is_space (rev t) @ dropWhile is_space (rev t))"
    by (simp only: rev_append)
  also have "\<dots> = rev (rev t)" by (simp only: takeWhile_dropWhile_id)
  finally have 2: "t = rev (dropWhile is_space (rev t)) @ rev (takeWhile is_space (rev t))"
    by simp
  have "strip s = rev (dropWhile is_space (rev t))" by (simp add: strip_def t_def)
  with 2 have "t = strip s @ rev (takeWhile is_space (rev t))" by simp
  with 1 have "s = takeWhile is_space s @ strip s @ rev (takeWhile is_space (rev t))" by simp
  then show ?thesis by blast
qed

lemma contains_strip: "contains sub (strip s) \<Longrightarrow> contains sub s"
proof -
  assume c: "contains sub (strip s)"
  obtain a b where "s = a @ strip s @ b" using strip_decomp by blast
  then show ?thesis using contains_append[OF c, of a b] by simp
qed

lemma splitlines_from_app:
  "\<forall>c \<in> set l. \<not> is_linebreak c \<Longrightarrow> splitlines_from cur (l @ rest) = splitlines_from (cur @ l) rest"
proof (induction l arbitrary: cur)
  case Nil then show ?case by simp
next
  case (Cons a l)
  then have "\<not> is_linebreak a" by simp
  moreover have "is_linebreak (CHR 0x0D)" by (simp add: is_linebreak_def)
  ultimately have "a \<noteq> CHR 0x0D" by auto
  then show ?case using Cons by simp
qed

lemma is_linebreak_LF: "is_linebreak (CHR 0x0A)" by (simp add: is_linebreak_def)

lemma splitlines_join:
  "\<forall>l \<in> set ls. \<forall>c \<in> set l. \<not> is_linebreak c \<Longrightarrow> ls = [] \<or> last ls \<noteq> [] \<Longrightarrow>
   splitlines_from [] (join [CHR 0x0A] ls) = ls"
proof (induction "[CHR 0x0A]" ls rule: join.induct)
  case 1 then show ?case by simp
next
  case (2 x)
  then show ?case using splitlines_from_app[of x "[]" "[]"] by simp
next
  case (3 x y ys)
  have "splitlines_from [] (x @ [CHR 0x0A] @ join [CHR 0x0A] (y # ys)) = splitlines_from x ([CHR 0x0A] @ join [CHR 0x0A] (y # ys))"
    using splitlines_from_app[of x "[]"] 3(2) by simp
  also have "\<dots> = x # splitlines_from [] (join [CHR 0x0A] (y # ys))"
    by (simp add: is_linebreak_LF)
  finally show ?case using 3 by simp
qed

section \<open>Properties of the normalizer\<close>

lemma no_linebreak_splitlines_from:
  "\<forall>c \<in> set cur. \<not> is_linebreak c \<Longrightarrow> l \<in> set (splitlines_from cur s) \<Longrightarrow> c \<in> set l \<Longrightarrow> \<not> is_linebreak c"
proof (induction cur s arbitrary: l rule: splitlines_from.induct)
  case (1 cur)
  then show ?case by (auto split: if_splits)
next
  case (2 cur c cs)
  show ?case
  proof (cases "c = CHR 0x0D")
    case True
    show ?thesis
    proof (cases cs)
      case Nil
      with True 2(5,6,7) show ?thesis by auto
    next
      case (Cons d ds)
      show ?thesis
      proof (cases "d = CHR 0x0A")
        case dLF: True
        with True Cons 2(6) have "l = cur \<or> l \<in> set (splitlines_from [] ds)" by auto
        then show ?thesis
        proof
          assume "l = cur" with 2(5,7) show ?thesis by auto
        next
          assume "l \<in> set (splitlines_from [] ds)"
          with 2(1)[OF True Cons dLF _ _ 2(7)] show ?thesis by auto
        qed
      next
        case dn: False
        with True Cons 2(6) have "l = cur \<or> l \<in> set (splitlines_from [] cs)" by auto
        then show ?thesis
        proof
          assume "l = cur" with 2(5,7) show ?thesis by auto
        next
          assume "l \<in> set (splitlines_from [] cs)"
          with 2(2)[OF True Cons dn _ _ 2(7)] show ?thesis by auto
        qed
      qed
    qed
  next
    case False
    show ?thesis
    proof (cases "is_linebreak c")
      case True
      with False 2(6) have "l = cur \<or> l \<in> set (splitlines_from [] cs)" by auto
      then show ?thesis
      proof
        assume "l = cur" with 2(5,7) show ?thesis by auto
      next
        assume "l \<in> set (splitlines_from [] cs)"
        with 2(3)[OF False True _ _ 2(7)] show ?thesis by auto
      qed
    next
      case nb: False
      with False 2(6) have "l \<in> set (splitlines_from (cur @ [c]) cs)" by auto
      moreover have "\<forall>c \<in> set (cur @ [c]). \<not> is_linebreak c" using 2(5) nb by auto
      ultimately show ?thesis using 2(4)[OF False nb _ _ 2(7)] by blast
    qed
  qed
qed


lemma split_once_decomp: "split_once sep s = Some (p, r) \<Longrightarrow> s = p @ sep @ r"
proof (induction s arbitrary: p r)
  case Nil then show ?case by simp
next
  case (Cons c cs)
  show ?case
  proof (cases "startswith (c # cs) sep")
    case True
    then obtain q where q: "c # cs = sep @ q" unfolding startswith_iff by blast
    from True Cons.prems have "p = []" and "r = drop (length sep) (c # cs)" by simp_all
    with q show ?thesis by simp
  next
    case False
    with Cons.prems obtain p' where "split_once sep cs = Some (p', r)" "p = c # p'"
      by (auto split: option.splits)
    with Cons.IH show ?thesis by simp
  qed
qed

lemma sub_lang_prefix_id: "\<not> contains ''||'' line \<Longrightarrow> sub_lang_prefix line = line"
proof (rule ccontr)
  assume nc: "\<not> contains ''||'' line" and ne: "sub_lang_prefix line \<noteq> line"
  define rest where "rest = dropWhile (\<lambda>c. \<not> is_word c) line"
  define after where "after = dropWhile is_ascii_alpha rest"
  from ne have "startswith after ''||''"
    unfolding sub_lang_prefix_def Let_def rest_def after_def by (simp split: if_splits)
  then obtain q where q: "after = ''||'' @ q" unfolding startswith_iff by blast
  have "line = takeWhile (\<lambda>c. \<not> is_word c) line @ rest" by (simp add: rest_def)
  moreover have "rest = takeWhile is_ascii_alpha rest @ after" by (simp add: after_def)
  ultimately have "line = takeWhile (\<lambda>c. \<not> is_word c) line @ takeWhile is_ascii_alpha rest @ after"
    by simp
  then have "line = (takeWhile (\<lambda>c. \<not> is_word c) line @ takeWhile is_ascii_alpha rest) @ ''||'' @ q"
    by (simp only: q append_assoc)
  then have "contains ''||'' line" unfolding contains_iff by blast
  with nc show False by simp
qed

lemma set_sub_lang_prefix: "set (sub_lang_prefix line) \<subseteq> set line"
proof -
  have "set (drop 2 (dropWhile is_ascii_alpha (dropWhile (\<lambda>c. \<not> is_word c) line))) \<subseteq> set line"
  proof
    fix x assume "x \<in> set (drop 2 (dropWhile is_ascii_alpha (dropWhile (\<lambda>c. \<not> is_word c) line)))"
    then have "x \<in> set (dropWhile is_ascii_alpha (dropWhile (\<lambda>c. \<not> is_word c) line))"
      by (rule in_set_dropD)
    then have "x \<in> set (dropWhile (\<lambda>c. \<not> is_word c) line)" by (rule set_dropWhileD)
    then show "x \<in> set line" by (rule set_dropWhileD)
  qed
  then show ?thesis unfolding sub_lang_prefix_def Let_def by simp
qed

lemma set_clean_line: "set (clean_line l) \<subseteq> set l"
proof -
  define line1 where "line1 = strip l"
  define line2 where "line2 =
    (if contains ''||'' line1 then
       (case split_once ''||'' line1 of
          Some (pre, rest) \<Rightarrow> if is_lang_code (strip pre) then strip rest else line1
        | None \<Rightarrow> line1)
     else line1)"
  have cl: "clean_line l = strip (sub_lang_prefix line2)"
    unfolding clean_line_def Let_def line1_def line2_def ..
  have "set line2 \<subseteq> set line1"
  proof (cases "split_once ''||'' line1")
    case None
    then show ?thesis by (simp add: line2_def)
  next
    case (Some pr)
    obtain p r where pr: "pr = (p, r)" by (cases pr)
    from split_once_decomp[of "''||''" line1 p r] Some pr
    have "line1 = p @ ''||'' @ r" by simp
    then have "set line1 = set p \<union> set ''||'' \<union> set r" by (simp only: set_append Un_assoc)
    then have "set r \<subseteq> set line1" by blast
    with set_strip[of r] have "set (strip r) \<subseteq> set line1" by blast
    then show ?thesis by (simp add: line2_def Some pr)
  qed
  moreover have "set line1 \<subseteq> set l" unfolding line1_def by (rule set_strip)
  moreover have "set (clean_line l) \<subseteq> set line2"
    unfolding cl using set_strip[of "sub_lang_prefix line2"] set_sub_lang_prefix[of line2] by blast
  ultimately show ?thesis by blast
qed

lemma strip_clean_line: "strip (clean_line l) = clean_line l"
  unfolding clean_line_def Let_def by (rule strip_idem)

lemma clean_line_id: "strip l = l \<Longrightarrow> \<not> contains ''||'' l \<Longrightarrow> clean_line l = l"
  unfolding clean_line_def Let_def by (simp add: sub_lang_prefix_id)


lemma clean_loop_props:
  "line \<in> set (clean_loop ls) \<Longrightarrow>
   (\<exists>l \<in> set ls. line = clean_line l) \<and> \<not> boilerplate (lower line)
   \<and> \<not> startswith (lower line) ''you might also like''"
proof (induction ls)
  case Nil then show ?case by simp
next
  case (Cons l ls)
  show ?case
  proof (cases "boilerplate (lower (clean_line l))")
    case True
    with Cons.prems have "line \<in> set (clean_loop ls)" by (simp add: Let_def)
    with Cons.IH show ?thesis by auto
  next
    case nb: False
    show ?thesis
    proof (cases "startswith (lower (clean_line l)) ''you might also like''")
      case True
      with nb Cons.prems show ?thesis by (simp add: Let_def)
    next
      case False
      with nb Cons.prems have "line = clean_line l \<or> line \<in> set (clean_loop ls)"
        by (simp add: Let_def)
      then show ?thesis using nb False Cons.IH by auto
    qed
  qed
qed

lemma clean_loop_id:
  "\<forall>l \<in> set ls. clean_line l = l \<and> \<not> boilerplate (lower l)
       \<and> \<not> startswith (lower l) ''you might also like'' \<Longrightarrow> clean_loop ls = ls"
  by (induction ls) (simp_all add: Let_def)

lemma trim_blank_subset: "set (trim_blank out) \<subseteq> set out"
  unfolding trim_blank_def by (rule set_trim)

lemma trim_blank_ends:
  "trim_blank out = [] \<or> (\<not> blank (hd (trim_blank out)) \<and> \<not> blank (last (trim_blank out)))"
  unfolding trim_blank_def by (rule trim_ends)

lemma trim_blank_idem: "trim_blank (trim_blank out) = trim_blank out"
  unfolding trim_blank_def by (rule trim_idem)

lemma join_decomp: "l \<in> set ls \<Longrightarrow> \<exists>a b. join sep ls = a @ l @ b"
proof (induction sep ls rule: join.induct)
  case (1 sep) then show ?case by simp
next
  case (2 sep x)
  then have "join sep [x] = [] @ l @ []" by simp
  then show ?case by blast
next
  case (3 sep x y ys)
  show ?case
  proof (cases "l = x")
    case True
    then have "join sep (x # y # ys) = [] @ l @ (sep @ join sep (y # ys))" by simp
    then show ?thesis by blast
  next
    case False
    with 3 obtain a b where "join sep (y # ys) = a @ l @ b" by auto
    then have "join sep (x # y # ys) = (x @ sep @ a) @ l @ b" by simp
    then show ?thesis by blast
  qed
qed

lemma contains_join: "l \<in> set ls \<Longrightarrow> contains sub l \<Longrightarrow> contains sub (join sep ls)"
proof -
  assume m: "l \<in> set ls" and c: "contains sub l"
  obtain a b where "join sep ls = a @ l @ b" using join_decomp[OF m] by blast
  then show ?thesis using contains_append[OF c, of a b] by simp
qed

text \<open>
  Claim C3, as the specification states it: \<open>clean_lyrics\<close> is idempotent on every input.
  The code is not: one pass removes at most two language-code prefixes from a line (one by
  the split rule of lines 34 to 37, one by the substitution of line 38), so a line that
  carries three of them loses the third only in a second pass.
\<close>

theorem clean_lyrics_not_idempotent:
  "clean_lyrics (clean_lyrics ''en||fr||de||Hello'') \<noteq> clean_lyrics ''en||fr||de||Hello''"
  by code_simp

text \<open>
  Claim C3, amended: for every input whose cleaned text contains no \<open>||\<close> separator any
  more, cleaning the cleaned text again returns it unchanged.
\<close>

theorem clean_lyrics_idempotent_without_separator:
  assumes "\<not> contains ''||'' (clean_lyrics s)"
  shows "clean_lyrics (clean_lyrics s) = clean_lyrics s"
proof -
  define out where "out = trim_blank (clean_loop (splitlines s))"
  have r: "clean_lyrics s = join [CHR 0x0A] out" by (simp add: clean_lyrics_def out_def)
  have inloop: "l \<in> set (clean_loop (splitlines s))" if "l \<in> set out" for l
    using that trim_blank_subset[of "clean_loop (splitlines s)"] unfolding out_def by blast
  have mem: "\<exists>l0 \<in> set (splitlines s). l = clean_line l0" if "l \<in> set out" for l
    using clean_loop_props[OF inloop[OF that]] by blast
  have nb: "\<not> boilerplate (lower l)" if "l \<in> set out" for l
    using clean_loop_props[OF inloop[OF that]] by blast
  have ny: "\<not> startswith (lower l) ''you might also like''" if "l \<in> set out" for l
    using clean_loop_props[OF inloop[OF that]] by blast
  have stripped: "strip l = l" if "l \<in> set out" for l
    using mem[OF that] strip_clean_line by auto
  have nolb: "\<not> is_linebreak c" if "l \<in> set out" "c \<in> set l" for l c
  proof -
    from mem[OF that(1)] obtain l0 where l0: "l0 \<in> set (splitlines s)" "l = clean_line l0" by blast
    with that(2) set_clean_line[of l0] have "c \<in> set l0" by blast
    with l0(1) show ?thesis
      using no_linebreak_splitlines_from[of "[]" l0 s c] by (simp add: splitlines_def)
  qed
  have nosep: "\<not> contains ''||'' l" if "l \<in> set out" for l
    using assms contains_join[OF that, of "''||''" "[CHR 0x0A]"] unfolding r by blast
  have last: "out = [] \<or> last out \<noteq> []"
  proof (cases "out = []")
    case True then show ?thesis by simp
  next
    case False
    with trim_blank_ends[of "clean_loop (splitlines s)"] have "\<not> blank (last out)"
      by (simp add: out_def)
    then show ?thesis by (auto simp: blank_def strip_def)
  qed
  have "splitlines (join [CHR 0x0A] out) = out"
    unfolding splitlines_def using nolb last by (intro splitlines_join) auto
  moreover have "clean_loop out = out"
    by (rule clean_loop_id) (simp add: clean_line_id stripped nosep nb ny)
  moreover have "trim_blank out = out"
    unfolding out_def by (rule trim_blank_idem)
  ultimately have "join [CHR 0x0A] (trim_blank (clean_loop (splitlines (join [CHR 0x0A] out))))
      = join [CHR 0x0A] out"
    by simp
  then have "clean_lyrics (join [CHR 0x0A] out) = join [CHR 0x0A] out"
    by (simp only: clean_lyrics_def)
  then show ?thesis by (simp only: r)
qed

theorem clean_lyrics_idempotent_without_separator_witness:
  "\<not> contains ''||'' (clean_lyrics ''en||Hello world\<newline>Translations\<newline>la la\<newline>You Might Also Like\<newline>Other'')
   \<and> clean_lyrics (clean_lyrics ''en||Hello world\<newline>Translations\<newline>la la\<newline>You Might Also Like\<newline>Other'')
       = clean_lyrics ''en||Hello world\<newline>Translations\<newline>la la\<newline>You Might Also Like\<newline>Other''"
proof -
  have h: "\<not> contains ''||'' (clean_lyrics ''en||Hello world\<newline>Translations\<newline>la la\<newline>You Might Also Like\<newline>Other'')"
    by code_simp
  from clean_lyrics_idempotent_without_separator [OF h] h show ?thesis by simp
qed

section \<open>What the providers and the job do to the world\<close>

lemma log_simps [simp]:
  "trace (log lv m w) = trace w @ [Log lv m]" "disk (log lv m w) = disk w" "tree (log lv m w) = tree w"
  by (simp_all add: log_def)

lemma emit_simps [simp]:
  "trace (emit e w) = trace w @ [e]" "disk (emit e w) = disk w" "tree (emit e w) = tree w"
  by (simp_all add: emit_def)

lemma genius_calls_append [simp]: "genius_calls (xs @ ys) = genius_calls xs @ genius_calls ys"
  by (induction xs rule: genius_calls.induct) simp_all

lemma http_calls_append [simp]: "http_calls (xs @ ys) = http_calls xs @ http_calls ys"
  by (induction xs rule: http_calls.induct) simp_all

lemma saves_append [simp]: "saves (xs @ ys) = saves xs @ saves ys"
  by (induction xs rule: saves.induct) simp_all

lemma extends_log: "extends w [Log lv m] (log lv m w)"
  by (simp add: extends_def log_def)

lemma extends_emit: "extends w [e] (emit e w)"
  by (simp add: extends_def emit_def)

lemma extends_trans: "extends w es w1 \<Longrightarrow> extends w1 es' w2 \<Longrightarrow> extends w (es @ es') w2"
  by (simp add: extends_def)

lemma extends_refl: "extends w [] w"
  by (simp add: extends_def)

lemma extends_since: "extends w es w' \<Longrightarrow> since w w' = es"
  by (simp add: extends_def since_def)

lemma extends_trace: "extends w es w' \<Longrightarrow> trace w' = trace w @ es"
  by (simp add: extends_def)

lemma extends_unique:
  assumes "extends w es w'" and "extends w es' w'"
  shows "es = es'"
  using extends_trace[OF assms(1)] extends_trace[OF assms(2)] by simp

lemma since_of_trace: "trace w' = trace w @ es \<Longrightarrow> since w w' = es"
  by (simp add: since_def)

lemma last_list_ex: "xs \<noteq> [] \<Longrightarrow> P (last xs) \<Longrightarrow> list_ex P xs"
  by (auto simp: list_ex_iff intro: bexI[of _ "last xs"])

lemma fetch_lyrics_ovh_effect:
  assumes "fetch_lyrics_ovh net t a w = (lyr, w')"
  shows "\<exists>es r. extends w es w' \<and> http_calls es = [(ovh_url t a, r)] \<and> genius_calls es = []
           \<and> saves es = [] \<and> (truth lyr \<longleftrightarrow> ovh_ok r)
           \<and> (truth lyr \<longrightarrow> r = Response 200 (Inr lyr))"
proof -
  define w1 where "w1 = log INFO (''OVH lookup for '' @ quoted t @ '' by '' @ quoted a) w"
  define r where "r = net (trace w1) (ovh_url t a)"
  define w2 where "w2 = emit (Http_Get (ovh_url t a) r) w1"
  define es2 where "es2 = [Log INFO (''OVH lookup for '' @ quoted t @ '' by '' @ quoted a),
                           Http_Get (ovh_url t a) r]"
  have e2: "extends w es2 w2"
    unfolding w2_def w1_def es2_def using extends_trans[OF extends_log extends_emit] by simp
  have p2: "http_calls es2 = [(ovh_url t a, r)]" "genius_calls es2 = []" "saves es2 = []"
    by (simp_all add: es2_def)
  have run: "(lyr, w') = (case r of
           Get_Raises e \<Rightarrow> (PyNone, log WARNING (''OVH failed: '' @ str_exn e) w2)
         | Response status_code body \<Rightarrow>
             (let w = log DEBUG (''OVH HTTP '' @ str_int status_code @ '' for '' @ a
                                 @ '' - '' @ t) w2
              in if status_code = 200 then
                   (case body of
                      Inl e \<Rightarrow> (PyNone, log WARNING (''OVH failed: '' @ str_exn e) w)
                    | Inr lyr \<Rightarrow> (lyr, w))
                 else (PyNone, w)))"
    using assms unfolding fetch_lyrics_ovh_def Let_def w1_def r_def w2_def by simp
  have fin: ?thesis
    if "extends w es w'" "http_calls es = http_calls es2" "genius_calls es = []" "saves es = []"
       "truth lyr \<longleftrightarrow> ovh_ok r" "truth lyr \<longrightarrow> r = Response 200 (Inr lyr)" for es
    using that p2 by metis
  show ?thesis
  proof (cases r)
    case (Get_Raises e)
    with run have l: "lyr = PyNone" and w: "w' = log WARNING (''OVH failed: '' @ str_exn e) w2"
      by simp_all
    have "extends w (es2 @ [Log WARNING (''OVH failed: '' @ str_exn e)]) w'"
      unfolding w by (rule extends_trans[OF e2 extends_log])
    then show ?thesis
      by (rule fin) (simp_all add: p2 l Get_Raises)
  next
    case (Response code body)
    define m3 where "m3 = ''OVH HTTP '' @ str_int code @ '' for '' @ a @ '' - '' @ t"
    define w3 where "w3 = log DEBUG m3 w2"
    have e3: "extends w (es2 @ [Log DEBUG m3]) w3"
      unfolding w3_def by (rule extends_trans[OF e2 extends_log])
    show ?thesis
    proof (cases "code = 200")
      case False
      with run Response have l: "lyr = PyNone" and w: "w' = w3"
        by (simp_all add: w3_def m3_def Let_def)
      have nok: "\<not> ovh_ok r" using Response False by (cases body) simp_all
      have "extends w (es2 @ [Log DEBUG m3]) w'" unfolding w by (rule e3)
      then show ?thesis
        by (rule fin) (simp_all add: p2 l nok)
    next
      case True
      show ?thesis
      proof (cases body)
        case (Inl e)
        with run Response True have l: "lyr = PyNone"
          and w: "w' = log WARNING (''OVH failed: '' @ str_exn e) w3"
          by (simp_all add: w3_def m3_def Let_def)
        have nok: "\<not> ovh_ok r" using Response Inl by simp
        have "extends w ((es2 @ [Log DEBUG m3]) @ [Log WARNING (''OVH failed: '' @ str_exn e)]) w'"
          unfolding w by (rule extends_trans[OF e3 extends_log])
        then show ?thesis
          by (rule fin) (simp_all add: p2 l nok)
      next
        case (Inr v)
        with run Response True have l: "lyr = v" and w: "w' = w3"
          by (simp_all add: w3_def m3_def Let_def)
        have t: "truth lyr \<longleftrightarrow> ovh_ok r" using Response True Inr l by simp
        have rr: "r = Response 200 (Inr lyr)" using Response True Inr l by simp
        have "extends w (es2 @ [Log DEBUG m3]) w'" unfolding w by (rule e3)
        then show ?thesis
          by (rule fin[OF _ _ _ _ t]) (simp_all add: p2 rr)
      qed
    qed
  qed
qed

lemma until_success_first: "ok r \<Longrightarrow> until_success [(q, r)] (q # vs) ok"
  by (simp add: until_success_def tried_in_order_def)

lemma until_success_next:
  "\<not> ok r \<Longrightarrow> until_success cs vs ok \<Longrightarrow> until_success ((q, r) # cs) (q # vs) ok"
  by (cases cs) (auto simp: until_success_def tried_in_order_def)

lemma until_success_all_failed:
  "until_success cs vs ok \<Longrightarrow> list_all (\<lambda>c. \<not> ok (snd c)) cs \<Longrightarrow> map fst cs = vs"
proof -
  assume u: "until_success cs vs ok" and f: "list_all (\<lambda>c. \<not> ok (snd c)) cs"
  have "length cs = length vs"
  proof (cases "cs = []")
    case True with u show ?thesis by (simp add: until_success_def)
  next
    case False
    then have "last cs \<in> set cs" by simp
    with f have "\<not> ok (snd (last cs))" by (simp add: list_all_iff)
    with u show ?thesis by (simp add: until_success_def)
  qed
  with u show ?thesis by (simp add: until_success_def tried_in_order_def)
qed

lemma ovh_loop_effect:
  "ovh_loop net vs w = (found, w') \<Longrightarrow>
   \<exists>es. extends w es w' \<and> genius_calls es = [] \<and> saves es = []
      \<and> until_success (http_calls es) (map (\<lambda>(t, a). ovh_url t a) vs) ovh_ok
      \<and> (case found of
            None \<Rightarrow> list_all (\<lambda>c. \<not> ovh_ok (snd c)) (http_calls es)
          | Some l \<Rightarrow> truth l \<and> http_calls es \<noteq> []
                      \<and> snd (last (http_calls es)) = Response 200 (Inr l))"
proof (induction vs arbitrary: w)
  case Nil
  then have "found = None" "w' = w" by simp_all
  then show ?case
    by (intro exI[of _ "[]"]) (simp add: extends_refl until_success_def tried_in_order_def)
next
  case (Cons v vs)
  obtain t a where v: "v = (t, a)" by (cases v)
  obtain l1 w1 where f: "fetch_lyrics_ovh net t a w = (l1, w1)" by (cases "fetch_lyrics_ovh net t a w")
  from fetch_lyrics_ovh_effect[OF f] obtain es1 r where
    e1: "extends w es1 w1" and h1: "http_calls es1 = [(ovh_url t a, r)]"
    and g1: "genius_calls es1 = []" and s1: "saves es1 = []"
    and ok1: "truth l1 \<longleftrightarrow> ovh_ok r" and r1: "truth l1 \<longrightarrow> r = Response 200 (Inr l1)"
    by blast
  show ?case
  proof (cases "truth l1")
    case True
    with Cons.prems v f have "found = Some l1" "w' = w1" by simp_all
    then show ?thesis
      using e1 h1 g1 s1 ok1 r1 True v
      by (intro exI[of _ es1]) (simp add: until_success_first)
  next
    case False
    with Cons.prems v f have "ovh_loop net vs w1 = (found, w')" by simp
    from Cons.IH[OF this] obtain es2 where
      e2: "extends w1 es2 w'" and g2: "genius_calls es2 = []" and s2: "saves es2 = []"
      and u2: "until_success (http_calls es2) (map (\<lambda>(t, a). ovh_url t a) vs) ovh_ok"
      and o2: "(case found of
            None \<Rightarrow> list_all (\<lambda>c. \<not> ovh_ok (snd c)) (http_calls es2)
          | Some l \<Rightarrow> truth l \<and> http_calls es2 \<noteq> []
                      \<and> snd (last (http_calls es2)) = Response 200 (Inr l))"
      by blast
    from False ok1 have nok: "\<not> ovh_ok r" by simp
    have "until_success (http_calls (es1 @ es2)) (map (\<lambda>(t, a). ovh_url t a) (v # vs)) ovh_ok"
      using until_success_next[OF nok u2] by (simp add: h1 v)
    moreover have "(case found of
            None \<Rightarrow> list_all (\<lambda>c. \<not> ovh_ok (snd c)) (http_calls (es1 @ es2))
          | Some l \<Rightarrow> truth l \<and> http_calls (es1 @ es2) \<noteq> []
                      \<and> snd (last (http_calls (es1 @ es2))) = Response 200 (Inr l))"
      using o2 nok by (cases found) (simp_all add: h1)
    ultimately show ?thesis
      using extends_trans[OF e1 e2] g1 g2 s1 s2 by (intro exI[of _ "es1 @ es2"]) simp
  qed
qed

lemma genius_loop_effect:
  "genius_loop g vs w = (found, w') \<Longrightarrow>
   \<exists>es. extends w es w' \<and> http_calls es = [] \<and> saves es = []
      \<and> until_success (genius_calls es) vs genius_ok
      \<and> (case found of
            None \<Rightarrow> list_all (\<lambda>c. \<not> genius_ok (snd c)) (genius_calls es)
          | Some l \<Rightarrow> l \<noteq> [] \<and> genius_calls es \<noteq> []
                      \<and> snd (last (genius_calls es)) = Song l)"
proof (induction vs arbitrary: w)
  case Nil
  then have "found = None" "w' = w" by simp_all
  then show ?case
    by (intro exI[of _ "[]"]) (simp add: extends_refl until_success_def tried_in_order_def)
next
  case (Cons v vs)
  obtain t a where v: "v = (t, a)" by (cases v)
  define m where "m = ''Trying Genius for '' @ quoted t @ '' by '' @ quoted a"
  define w1 where "w1 = log INFO m w"
  define r where "r = g (trace w1) t a"
  define w2 where "w2 = emit (Genius_Search t a r) w1"
  define es1 where "es1 = [Log INFO m, Genius_Search t a r]"
  have e1: "extends w es1 w2"
    unfolding w2_def w1_def es1_def using extends_trans[OF extends_log extends_emit] by simp
  have p1: "genius_calls es1 = [((t, a), r)]" "http_calls es1 = []" "saves es1 = []"
    by (simp_all add: es1_def)
  have run: "(case r of
           Song lyr \<Rightarrow> if lyr \<noteq> [] then (Some lyr, w2) else genius_loop g vs w2
         | No_Song \<Rightarrow> genius_loop g vs w2
         | Search_Raises e \<Rightarrow> genius_loop g vs (log DEBUG (''Genius error: '' @ str_exn e) w2))
       = (found, w')"
    using Cons.prems unfolding v genius_loop.simps Let_def w2_def w1_def r_def m_def .
  have rest: ?case
    if nok: "\<not> genius_ok r" and e: "extends w es0 w0" and p0: "genius_calls es0 = [((t, a), r)]"
      "http_calls es0 = []" "saves es0 = []" and loop: "genius_loop g vs w0 = (found, w')"
    for es0 w0
  proof -
    from Cons.IH[OF loop] obtain es2 where
      e2: "extends w0 es2 w'" and h2: "http_calls es2 = []" and s2: "saves es2 = []"
      and u2: "until_success (genius_calls es2) vs genius_ok"
      and o2: "(case found of
            None \<Rightarrow> list_all (\<lambda>c. \<not> genius_ok (snd c)) (genius_calls es2)
          | Some l \<Rightarrow> l \<noteq> [] \<and> genius_calls es2 \<noteq> []
                      \<and> snd (last (genius_calls es2)) = Song l)"
      by blast
    have "until_success (genius_calls (es0 @ es2)) (v # vs) genius_ok"
      using until_success_next[OF nok u2] by (simp add: p0 v)
    moreover have "(case found of
            None \<Rightarrow> list_all (\<lambda>c. \<not> genius_ok (snd c)) (genius_calls (es0 @ es2))
          | Some l \<Rightarrow> l \<noteq> [] \<and> genius_calls (es0 @ es2) \<noteq> []
                      \<and> snd (last (genius_calls (es0 @ es2))) = Song l)"
      using o2 nok by (cases found) (simp_all add: p0)
    ultimately show ?thesis
      using extends_trans[OF e e2] p0 h2 s2 by (intro exI[of _ "es0 @ es2"]) simp
  qed
  show ?case
  proof (cases r)
    case (Search_Raises e)
    with run have loop: "genius_loop g vs (log DEBUG (''Genius error: '' @ str_exn e) w2) = (found, w')"
      by simp
    show ?thesis
      by (rule rest[OF _ extends_trans[OF e1 extends_log] _ _ _ loop])
         (simp_all add: p1 Search_Raises)
  next
    case No_Song
    with run have loop: "genius_loop g vs w2 = (found, w')" by simp
    show ?thesis
      by (rule rest[OF _ e1 _ _ _ loop]) (simp_all add: p1 No_Song)
  next
    case (Song lyr)
    show ?thesis
    proof (cases "lyr = []")
      case True
      with run Song have loop: "genius_loop g vs w2 = (found, w')" by simp
      show ?thesis
        by (rule rest[OF _ e1 _ _ _ loop]) (simp_all add: p1 Song True)
    next
      case False
      with run Song have "found = Some lyr" "w' = w2" by simp_all
      then show ?thesis
        using e1 p1 False Song v
        by (intro exI[of _ es1]) (simp add: until_success_first)
    qed
  qed
qed

lemma get_raw_lyrics_effect:
  assumes run: "get_raw_lyrics net title artist genius use_genius alt_title alt_artist w = ((raw, src), w')"
  shows "\<exists>es. extends w es w' \<and> saves es = []
     \<and> (if use_genius \<and> genius \<noteq> None
         then until_success (genius_calls es) (variants title artist alt_title alt_artist) genius_ok
         else genius_calls es = [])
     \<and> ((src = Some Genius \<and> http_calls es = []
          \<and> (\<exists>l. raw = PyStr l \<and> l \<noteq> [] \<and> genius_calls es \<noteq> []
                  \<and> snd (last (genius_calls es)) = Song l))
        \<or> (src \<noteq> Some Genius \<and> list_all (\<lambda>c. \<not> genius_ok (snd c)) (genius_calls es)
            \<and> until_success (http_calls es)
                 (map (\<lambda>(t, a). ovh_url t a) (variants title artist alt_title alt_artist)) ovh_ok
            \<and> ((src = Some Ovh \<and> truth raw \<and> http_calls es \<noteq> []
                 \<and> snd (last (http_calls es)) = Response 200 (Inr raw))
               \<or> (src = None \<and> raw = PyNone
                   \<and> list_all (\<lambda>c. \<not> ovh_ok (snd c)) (http_calls es)))))"
proof -
  define vs where "vs = variants title artist alt_title alt_artist"
  define stage1 where "stage1 =
            (case genius of
               Some g \<Rightarrow> if use_genius then genius_loop g vs w
                         else (None, log INFO ''Genius lookup skipped'' w)
             | None \<Rightarrow> (None, log INFO ''Genius lookup skipped'' w))"
  obtain found w1 where st: "stage1 = (found, w1)" by (cases stage1)
  have run2: "(case found of
           Some lyr \<Rightarrow> ((PyStr lyr, Some Genius), w1)
         | None \<Rightarrow>
             (case ovh_loop net vs w1 of
                (Some lyr, w) \<Rightarrow> ((lyr, Some Ovh), w)
              | (None, w) \<Rightarrow> ((PyNone, None), w))) = ((raw, src), w')"
    using run st unfolding get_raw_lyrics_def Let_def vs_def[symmetric] stage1_def[symmetric]
    by simp
  have s1: "\<exists>es1. extends w es1 w1 \<and> saves es1 = [] \<and> http_calls es1 = []
      \<and> (if use_genius \<and> genius \<noteq> None then until_success (genius_calls es1) vs genius_ok
          else genius_calls es1 = [])
      \<and> (case found of
            None \<Rightarrow> list_all (\<lambda>c. \<not> genius_ok (snd c)) (genius_calls es1)
          | Some l \<Rightarrow> l \<noteq> [] \<and> genius_calls es1 \<noteq> []
                      \<and> snd (last (genius_calls es1)) = Song l)"
  proof (cases "use_genius \<and> genius \<noteq> None")
    case True
    then obtain g where g: "genius = Some g" by auto
    with True st have "genius_loop g vs w = (found, w1)" by (simp add: stage1_def)
    from genius_loop_effect[OF this] True show ?thesis by auto
  next
    case False
    with st have "found = None" "w1 = log INFO ''Genius lookup skipped'' w"
      by (auto simp: stage1_def split: option.splits if_splits)
    with False show ?thesis
      by (intro exI[of _ "[Log INFO ''Genius lookup skipped'']"]) (auto simp: extends_log)
  qed
  then obtain es1 where e1: "extends w es1 w1" and sv1: "saves es1 = []" and h1: "http_calls es1 = []"
    and g1: "if use_genius \<and> genius \<noteq> None then until_success (genius_calls es1) vs genius_ok
          else genius_calls es1 = []"
    and o1: "(case found of
            None \<Rightarrow> list_all (\<lambda>c. \<not> genius_ok (snd c)) (genius_calls es1)
          | Some l \<Rightarrow> l \<noteq> [] \<and> genius_calls es1 \<noteq> []
                      \<and> snd (last (genius_calls es1)) = Song l)"
    by blast
  show ?thesis
  proof (cases found)
    case (Some l)
    with run2 have "raw = PyStr l" "src = Some Genius" "w' = w1" by simp_all
    with e1 sv1 h1 g1 o1 Some show ?thesis
      unfolding vs_def by (intro exI[of _ es1]) simp
  next
    case None
    obtain lyr w2 where ol: "ovh_loop net vs w1 = (lyr, w2)" by (cases "ovh_loop net vs w1")
    from ovh_loop_effect[OF ol] obtain es2 where
      e2: "extends w1 es2 w2" and g2: "genius_calls es2 = []" and sv2: "saves es2 = []"
      and u2: "until_success (http_calls es2) (map (\<lambda>(t, a). ovh_url t a) vs) ovh_ok"
      and o2: "(case lyr of
            None \<Rightarrow> list_all (\<lambda>c. \<not> ovh_ok (snd c)) (http_calls es2)
          | Some l \<Rightarrow> truth l \<and> http_calls es2 \<noteq> []
                      \<and> snd (last (http_calls es2)) = Response 200 (Inr l))"
      by blast
    from run2 None ol have res: "w' = w2"
      "raw = (case lyr of None \<Rightarrow> PyNone | Some l \<Rightarrow> l)"
      "src = (if lyr = None then None else Some Ovh)"
      by (auto split: option.splits)
    have e: "extends w (es1 @ es2) w'" using extends_trans[OF e1 e2] res by simp
    have gc: "genius_calls (es1 @ es2) = genius_calls es1" by (simp add: g2)
    have hc: "http_calls (es1 @ es2) = http_calls es2" by (simp add: h1)
    have nog: "list_all (\<lambda>c. \<not> genius_ok (snd c)) (genius_calls es1)" using o1 None by simp
    show ?thesis
    proof (cases lyr)
      case lnone: None
      show ?thesis
        using e sv1 sv2 g1 nog u2 o2 res lnone
        unfolding vs_def
        by (intro exI[of _ "es1 @ es2"]) (simp only: gc hc, simp)
    next
      case (Some l)
      show ?thesis
        using e sv1 sv2 g1 nog u2 o2 res Some
        unfolding vs_def
        by (intro exI[of _ "es1 @ es2"]) (simp only: gc hc, simp)
    qed
  qed
qed

lemma get_raw_lyrics_since:
  assumes "get_raw_lyrics net T A genius use_genius T2 A2 w = ((raw, src), w')"
  shows "(if use_genius \<and> genius \<noteq> None
         then until_success (genius_calls (since w w')) (variants T A T2 A2) genius_ok
         else genius_calls (since w w') = [])
     \<and> ((src = Some Genius \<and> http_calls (since w w') = []
          \<and> list_ex (\<lambda>c. genius_ok (snd c)) (genius_calls (since w w')))
        \<or> (src \<noteq> Some Genius
            \<and> list_all (\<lambda>c. \<not> genius_ok (snd c)) (genius_calls (since w w'))
            \<and> until_success (http_calls (since w w'))
                 (map (\<lambda>(t, a). ovh_url t a) (variants T A T2 A2)) ovh_ok))"
proof -
  from get_raw_lyrics_effect[OF assms] obtain es where
    e: "extends w es w'"
    and g: "if use_genius \<and> genius \<noteq> None
         then until_success (genius_calls es) (variants T A T2 A2) genius_ok
         else genius_calls es = []"
    and c: "(src = Some Genius \<and> http_calls es = []
             \<and> (\<exists>l. l \<noteq> [] \<and> genius_calls es \<noteq> [] \<and> snd (last (genius_calls es)) = Song l))
        \<or> (src \<noteq> Some Genius \<and> list_all (\<lambda>c. \<not> genius_ok (snd c)) (genius_calls es)
            \<and> until_success (http_calls es)
                 (map (\<lambda>(t, a). ovh_url t a) (variants T A T2 A2)) ovh_ok)"
    by blast
  have k: "list_ex (\<lambda>c. genius_ok (snd c)) (genius_calls es)"
    if "l \<noteq> []" "genius_calls es \<noteq> []" "snd (last (genius_calls es)) = Song l" for l
    using last_list_ex[of "genius_calls es" "\<lambda>c. genius_ok (snd c)"] that by simp
  from e have "since w w' = es" by (rule extends_since)
  with g c k show ?thesis by auto
qed

lemma get_raw_lyrics_provided:
  assumes "get_raw_lyrics net title artist genius use_genius alt_title alt_artist w = ((PyStr l, src), w')"
  shows "\<exists>es. extends w es w' \<and> saves es = [] \<and> l \<noteq> [] \<and> provided l es"
proof -
  from get_raw_lyrics_effect[OF assms] obtain es where
    e: "extends w es w'" and s: "saves es = []"
    and c: "(src = Some Genius
          \<and> (\<exists>l'. PyStr l = PyStr l' \<and> l' \<noteq> [] \<and> genius_calls es \<noteq> []
                  \<and> snd (last (genius_calls es)) = Song l'))
        \<or> (src = Some Ovh \<and> truth (PyStr l) \<and> http_calls es \<noteq> []
                 \<and> snd (last (http_calls es)) = Response 200 (Inr (PyStr l)))
        \<or> (src = None \<and> PyStr l = PyNone)"
    by blast
  from c have "l \<noteq> [] \<and> provided l es"
  proof (elim disjE conjE exE)
    fix l' assume "PyStr l = PyStr l'" "l' \<noteq> []" "genius_calls es \<noteq> []"
      "snd (last (genius_calls es)) = Song l'"
    then show ?thesis
      using last_list_ex[of "genius_calls es" "\<lambda>c. snd c = Song l"] by (simp add: provided_def)
  next
    assume "truth (PyStr l)" "http_calls es \<noteq> []"
      "snd (last (http_calls es)) = Response 200 (Inr (PyStr l))"
    then show ?thesis
      using last_list_ex[of "http_calls es" "\<lambda>c. snd c = Response 200 (Inr (PyStr l))"]
      by (simp add: provided_def)
  next
    assume "PyStr l = PyNone" then show ?thesis by simp
  qed
  with e s show ?thesis by blast
qed

lemma get_raw_lyrics_quiet:
  assumes "get_raw_lyrics net title artist genius use_genius alt_title alt_artist w = (res, w')"
  shows "\<exists>es. extends w es w' \<and> saves es = []"
proof -
  obtain raw src where "res = (raw, src)" by (cases res)
  with get_raw_lyrics_effect[of net title artist genius use_genius alt_title alt_artist w raw src w'] assms
  show ?thesis by blast
qed

lemma variants_explicit:
  "variants T A T2 A2 =
     (T, A) # (if truthy A2 then [(T, the A2)] else [])
            @ (if truthy T2 then [(the T2, A)] else [])
            @ (if truthy T2 \<and> truthy A2 then [(the T2, the A2)] else [])"
  by (cases T2; cases A2) (simp_all add: variants_def)

lemma first_text_total:
  "list_all (has_text tgs) fs \<Longrightarrow> \<exists>v. first_text tgs fs = Inr v"
  by (induction fs) (auto split: option.splits sum.splits)

lemma first_text_raises:
  "first_text tgs fs = Inl e \<Longrightarrow> \<not> list_all (has_text tgs) fs"
  using first_text_total by fastforce

lemma write_lyrics_cases
  [consumes 1, case_names no_lyrics not_a_string cleaned_empty save_failed saved]:
  assumes "write_lyrics path au tgs title (raw, src) w = (r, w')"
  obtains
    (no_lyrics) "\<not> truth raw" "r = Inr False" "w' = log WARNING ''No lyrics found.'' w"
  | (not_a_string) ty where "raw = PyOther ty True"
      "r = Inl (no_attribute raw ''splitlines'')" "w' = w"
  | (cleaned_empty) l where "raw = PyStr l" "l \<noteq> []" "clean_lyrics l = []" "r = Inr False"
      "w' = log WARNING ''Cleaned lyrics empty.'' w"
  | (save_failed) l e where "raw = PyStr l" "l \<noteq> []" "clean_lyrics l \<noteq> []" "save_error au = Some e"
      "r = Inr False"
      "w' = log ERROR (''Save failure: '' @ str_exn e)
              (emit (Save path (add tgs (USLT 3 ''eng'' [] (clean_lyrics l))) (Some e)) w)"
  | (saved) l where "raw = PyStr l" "l \<noteq> []" "clean_lyrics l \<noteq> []" "save_error au = None"
      "r = Inr True"
      "w' = log INFO (''Saved using '' @ source_upper (the src) @ '' for '' @ quoted title @ ''.'')
              ((emit (Save path (add tgs (USLT 3 ''eng'' [] (clean_lyrics l))) None) w)
                 \<lparr>disk := (disk w)(path := Inr (au\<lparr>tags := Some (add tgs (USLT 3 ''eng'' [] (clean_lyrics l)))\<rparr>))\<rparr>)"
proof (cases "truth raw")
  case False
  with assms have "r = Inr False" "w' = log WARNING ''No lyrics found.'' w"
    by (simp_all add: write_lyrics_def)
  with False show ?thesis by (rule no_lyrics)
next
  case True
  show ?thesis
  proof (cases raw)
    case PyNone
    with True show ?thesis by simp
  next
    case (PyOther ty b)
    with True have raw: "raw = PyOther ty True" by simp
    with assms have "r = Inl (no_attribute raw ''splitlines'')" "w' = w"
      by (simp_all add: write_lyrics_def)
    with raw show ?thesis by (rule not_a_string)
  next
    case (PyStr l)
    with True have l: "raw = PyStr l" "l \<noteq> []" by simp_all
    show ?thesis
    proof (cases "clean_lyrics l = []")
      case True
      with assms l have "r = Inr False" "w' = log WARNING ''Cleaned lyrics empty.'' w"
        by (simp_all add: write_lyrics_def)
      with l True show ?thesis by (rule cleaned_empty)
    next
      case False
      show ?thesis
      proof (cases "save_error au")
        case None
        with assms l False have "r = Inr True"
          "w' = log INFO (''Saved using '' @ source_upper (the src) @ '' for '' @ quoted title @ ''.'')
                ((emit (Save path (add tgs (USLT 3 ''eng'' [] (clean_lyrics l))) None) w)
                   \<lparr>disk := (disk w)(path := Inr (au\<lparr>tags := Some (add tgs (USLT 3 ''eng'' [] (clean_lyrics l)))\<rparr>))\<rparr>)"
          by (simp_all add: write_lyrics_def Let_def)
        with l False None show ?thesis by (rule saved)
      next
        case (Some e)
        with assms l False have "r = Inr False"
          "w' = log ERROR (''Save failure: '' @ str_exn e)
                (emit (Save path (add tgs (USLT 3 ''eng'' [] (clean_lyrics l))) (Some e)) w)"
          by (simp_all add: write_lyrics_def Let_def)
        with l False Some show ?thesis by (rule save_failed)
      qed
    qed
  qed
qed

lemma job_cases [consumes 1, case_names open_failure skipped raised missing resolved]:
  assumes "add_lyrics_to_file net path genius use_genius overwrite w = (r, w')"
  obtains
    (open_failure) e where "disk w path = Inl e" "r = Inr False"
      "w' = log ERROR (''Open failure: '' @ str_exn e) (log INFO (''Processing file: '' @ path) w)"
  | (skipped) au where "disk w path = Inr au" "\<not> overwrite" "list_ex is_USLT (map snd (the_tags au))"
      "r = Inr False"
      "w' = log INFO ''Existing lyrics; skipping.'' (log INFO (''Processing file: '' @ path) w)"
  | (raised) au e where "disk w path = Inr au" "overwrite \<or> \<not> list_ex is_USLT (map snd (the_tags au))"
      "\<not> texts_ok (the_tags au)" "r = Inl e" "w' = log INFO (''Processing file: '' @ path) w"
  | (missing) au title artist where "disk w path = Inr au"
      "overwrite \<or> \<not> list_ex is_USLT (map snd (the_tags au))"
      "first_text (the_tags au) [''TIT2'', ''TALB''] = Inr title"
      "first_text (the_tags au) [''TPE1'', ''TPE2''] = Inr artist"
      "\<not> truthy title \<or> \<not> truthy artist" "r = Inr False"
      "w' = log WARNING ''Missing title/artist metadata.'' (log INFO (''Processing file: '' @ path) w)"
  | (resolved) au title artist alt_title alt_artist res w1 where "disk w path = Inr au"
      "overwrite \<or> \<not> list_ex is_USLT (map snd (the_tags au))"
      "first_text (the_tags au) [''TIT2'', ''TALB''] = Inr (Some title)" "title \<noteq> []"
      "first_text (the_tags au) [''TPE1'', ''TPE2''] = Inr (Some artist)" "artist \<noteq> []"
      "first_text (the_tags au) [''TALB''] = Inr alt_title"
      "first_text (the_tags au) [''TPE2''] = Inr alt_artist"
      "get_raw_lyrics net title artist genius use_genius alt_title alt_artist
         (log INFO (''Processing file: '' @ path) w) = (res, w1)"
      "write_lyrics path au (the_tags au) title res w1 = (r, w')"
proof -
  define w0 where "w0 = log INFO (''Processing file: '' @ path) w"
  have d0: "disk w0 path = disk w path" by (simp add: w0_def)
  show ?thesis
  proof (cases "disk w path")
    case (Inl e)
    with assms have "r = Inr False" "w' = log ERROR (''Open failure: '' @ str_exn e) w0"
      by (simp_all add: add_lyrics_to_file_def Let_def w0_def)
    then show ?thesis using open_failure[OF Inl] unfolding w0_def by blast
  next
    case (Inr au)
    let ?tgs = "the_tags au"
    show ?thesis
    proof (cases "\<not> overwrite \<and> list_ex is_USLT (map snd ?tgs)")
      case True
      with assms Inr have rw: "r = Inr False" "w' = log INFO ''Existing lyrics; skipping.'' w0"
        by (simp_all add: add_lyrics_to_file_def Let_def w0_def)
      from True have no: "\<not> overwrite" and ex: "list_ex is_USLT (map snd (the_tags au))"
        by simp_all
      show ?thesis by (rule skipped[OF Inr no ex rw[unfolded w0_def]])
    next
      case False
      then have permitted: "overwrite \<or> \<not> list_ex is_USLT (map snd (the_tags au))"
        by auto
      have run: "(case first_text ?tgs [''TIT2'', ''TALB''] of
                      Inl e \<Rightarrow> (Inl e, w0)
                    | Inr title \<Rightarrow>
                   (case first_text ?tgs [''TPE1'', ''TPE2''] of
                      Inl e \<Rightarrow> (Inl e, w0)
                    | Inr artist \<Rightarrow>
                   if \<not> truthy title \<or> \<not> truthy artist
                   then (Inr False, log WARNING ''Missing title/artist metadata.'' w0)
                   else
                   (case first_text ?tgs [''TALB''] of
                      Inl e \<Rightarrow> (Inl e, w0)
                    | Inr alt_title \<Rightarrow>
                   (case first_text ?tgs [''TPE2''] of
                      Inl e \<Rightarrow> (Inl e, w0)
                    | Inr alt_artist \<Rightarrow>
                   (case get_raw_lyrics net (the title) (the artist) genius use_genius
                           alt_title alt_artist w0 of
                      (res, w) \<Rightarrow> write_lyrics path au ?tgs (the title) res w))))) = (r, w')"
        using assms False unfolding add_lyrics_to_file_def Let_def w0_def[symmetric] d0 Inr
        by (simp del: first_text.simps)
      have bad: ?thesis if "first_text ?tgs fs = Inl e" "r = Inl e" "w' = w0"
        "set fs \<subseteq> {''TIT2'', ''TALB'', ''TPE1'', ''TPE2''}" for fs e
      proof -
        from first_text_raises[OF that(1)] that(4) have "\<not> texts_ok (the_tags au)"
          by (auto simp: texts_ok_def list_all_iff)
        then show ?thesis by (rule raised[OF Inr permitted _ that(2) that(3)[unfolded w0_def]])
      qed
      show ?thesis
      proof (cases "first_text ?tgs [''TIT2'', ''TALB'']")
        case (Inl e)
        with run have rw: "r = Inl e" "w' = w0" by (simp_all del: first_text.simps)
        show ?thesis by (rule bad[OF Inl rw]) simp
      next
        case title: (Inr title)
        show ?thesis
        proof (cases "first_text ?tgs [''TPE1'', ''TPE2'']")
          case (Inl e)
          with run title have rw: "r = Inl e" "w' = w0" by (simp_all del: first_text.simps)
          show ?thesis by (rule bad[OF Inl rw]) simp
        next
          case artist: (Inr artist)
          show ?thesis
          proof (cases "\<not> truthy title \<or> \<not> truthy artist")
            case True
            with run title artist have rw: "r = Inr False"
              "w' = log WARNING ''Missing title/artist metadata.'' w0"
              by (simp_all del: first_text.simps)
            show ?thesis
              by (rule missing[OF Inr permitted title artist True
                    rw[unfolded w0_def]])
          next
            case False
            then obtain t a where ta: "title = Some t" "t \<noteq> []" "artist = Some a" "a \<noteq> []"
              by (cases title; cases artist) auto
            show ?thesis
            proof (cases "first_text ?tgs [''TALB'']")
              case (Inl e)
              with run title artist False have rw: "r = Inl e" "w' = w0" by (simp_all del: first_text.simps)
              show ?thesis by (rule bad[OF Inl rw]) simp
            next
              case alt_title: (Inr alt_title)
              show ?thesis
              proof (cases "first_text ?tgs [''TPE2'']")
                case (Inl e)
                with run title artist False alt_title have rw: "r = Inl e" "w' = w0" by (simp_all del: first_text.simps)
                show ?thesis by (rule bad[OF Inl rw]) simp
              next
                case alt_artist: (Inr alt_artist)
                obtain res w1 where g: "get_raw_lyrics net t a genius use_genius alt_title alt_artist w0
                    = (res, w1)"
                  by (cases "get_raw_lyrics net t a genius use_genius alt_title alt_artist w0")
                with run title artist False alt_title alt_artist ta
                have wl: "write_lyrics path au ?tgs t res w1 = (r, w')" by (simp del: first_text.simps)
                show ?thesis
                  by (rule resolved[OF Inr permitted title[unfolded ta] ta(2)
                        artist[unfolded ta] ta(4) alt_title
                        alt_artist g[unfolded w0_def] wl])
              qed
            qed
          qed
        qed
      qed
    qed
  qed
qed

text \<open>What a job does, read off the trace: nothing is saved, or one save takes place.\<close>

lemma job_summary:
  assumes run: "add_lyrics_to_file net path genius use_genius overwrite w = (r, w')"
  shows "\<exists>es. trace w' = trace w @ es \<and> tree w' = tree w
     \<and> ((r \<noteq> Inr True \<and> saves es = [] \<and> disk w' = disk w)
        \<or> (\<exists>au raw. disk w path = Inr au
              \<and> (overwrite \<or> \<not> list_ex is_USLT (map snd (the_tags au)))
              \<and> raw \<noteq> [] \<and> provided raw es \<and> clean_lyrics raw \<noteq> []
              \<and> saves es = [(path, add (the_tags au) (USLT 3 ''eng'' [] (clean_lyrics raw)),
                             save_error au)]
              \<and> ((save_error au \<noteq> None \<and> r = Inr False \<and> disk w' = disk w)
                 \<or> (save_error au = None \<and> r = Inr True
                     \<and> disk w' = (disk w)(path := Inr (au\<lparr>tags :=
                          Some (add (the_tags au) (USLT 3 ''eng'' [] (clean_lyrics raw)))\<rparr>))))))"
proof -
  have fin: ?thesis
    if "trace w' = trace w @ es" "tree w' = tree w" "r \<noteq> Inr True" "saves es = []"
       "disk w' = disk w" for es
    using that by blast
  have fin2: ?thesis
    if "trace w' = trace w @ es" "tree w' = tree w" "disk w path = Inr au"
       "overwrite \<or> \<not> list_ex is_USLT (map snd (the_tags au))"
       "raw \<noteq> []" "provided raw es" "clean_lyrics raw \<noteq> []"
       "saves es = [(path, add (the_tags au) (USLT 3 ''eng'' [] (clean_lyrics raw)),
                             save_error au)]"
       "(save_error au \<noteq> None \<and> r = Inr False \<and> disk w' = disk w)
                 \<or> (save_error au = None \<and> r = Inr True
                     \<and> disk w' = (disk w)(path := Inr (au\<lparr>tags :=
                          Some (add (the_tags au) (USLT 3 ''eng'' [] (clean_lyrics raw)))\<rparr>)))"
    for es au raw
    using that by blast
  from run show ?thesis
proof (cases rule: job_cases)
  case (open_failure e)
  then have "trace w' = trace w @ [Log INFO (''Processing file: '' @ path),
                                   Log ERROR (''Open failure: '' @ str_exn e)]"
    by simp
  then show ?thesis by (rule fin) (simp_all add: open_failure)
next
  case (skipped au)
  then have "trace w' = trace w @ [Log INFO (''Processing file: '' @ path),
                                   Log INFO ''Existing lyrics; skipping.'']"
    by simp
  then show ?thesis by (rule fin) (simp_all add: skipped)
next
  case (raised au e)
  then have "trace w' = trace w @ [Log INFO (''Processing file: '' @ path)]"
    by simp
  then show ?thesis by (rule fin) (simp_all add: raised)
next
  case (missing au title artist)
  then have "trace w' = trace w @ [Log INFO (''Processing file: '' @ path),
                                   Log WARNING ''Missing title/artist metadata.'']"
    by simp
  then show ?thesis by (rule fin) (simp_all add: missing)
next
  case (resolved au title artist alt_title alt_artist res w1)
  obtain raw src where res: "res = (raw, src)" by (cases res)
  let ?w0 = "log INFO (''Processing file: '' @ path) w"
  from get_raw_lyrics_quiet[OF resolved(9)] obtain es1 where
    e1: "extends ?w0 es1 w1" and s1: "saves es1 = []" by blast
  from e1 have t1: "trace w1 = trace w @ (Log INFO (''Processing file: '' @ path) # es1)"
    and d1: "disk w1 = disk w" and tr1: "tree w1 = tree w"
    by (simp_all add: extends_def)
  from resolved(10)[unfolded res] show ?thesis
  proof (cases rule: write_lyrics_cases)
    case no_lyrics
    with t1 have "trace w' = trace w @ ((Log INFO (''Processing file: '' @ path) # es1)
                      @ [Log WARNING ''No lyrics found.''])"
      by simp
    then show ?thesis by (rule fin) (simp_all add: no_lyrics d1 tr1 s1)
  next
    case (not_a_string ty)
    with t1 have "trace w' = trace w @ (Log INFO (''Processing file: '' @ path) # es1)"
      by simp
    then show ?thesis by (rule fin) (simp_all add: not_a_string d1 tr1 s1)
  next
    case (cleaned_empty l)
    with t1 have "trace w' = trace w @ ((Log INFO (''Processing file: '' @ path) # es1)
                      @ [Log WARNING ''Cleaned lyrics empty.''])"
      by simp
    then show ?thesis by (rule fin) (simp_all add: cleaned_empty d1 tr1 s1)
  next
    case (save_failed l e)
    from resolved(9)[unfolded res save_failed(1)] get_raw_lyrics_provided
    obtain es1' where e1': "extends ?w0 es1' w1" and p: "provided l es1'" by blast
    from e1' e1 have "es1' = es1" by (rule extends_unique)
    with p have p1: "provided l es1" by simp
    let ?es = "(Log INFO (''Processing file: '' @ path) # es1)
        @ [Save path (add (the_tags au) (USLT 3 ''eng'' [] (clean_lyrics l))) (Some e),
           Log ERROR (''Save failure: '' @ str_exn e)]"
    have pr: "provided l ?es" using p1 by (auto simp: provided_def)
    have f: "trace w' = trace w @ ?es" "tree w' = tree w" "disk w' = disk w" "saves ?es =
       [(path, add (the_tags au) (USLT 3 ''eng'' [] (clean_lyrics l)), save_error au)]"
      using save_failed t1 d1 tr1 s1 by simp_all
    show ?thesis
      by (rule fin2[OF f(1,2) resolved(1,2) save_failed(2) pr save_failed(3) f(4)])
         (simp add: save_failed(4,5) f(3))
  next
    case (saved l)
    from resolved(9)[unfolded res saved(1)] get_raw_lyrics_provided
    obtain es1' where e1': "extends ?w0 es1' w1" and p: "provided l es1'" by blast
    from e1' e1 have "es1' = es1" by (rule extends_unique)
    with p have p1: "provided l es1" by simp
    let ?es = "(Log INFO (''Processing file: '' @ path) # es1)
        @ [Save path (add (the_tags au) (USLT 3 ''eng'' [] (clean_lyrics l))) None,
           Log INFO (''Saved using '' @ source_upper (the src) @ '' for '' @ quoted title @ ''.'')]"
    have pr: "provided l ?es" using p1 by (auto simp: provided_def)
    have f: "trace w' = trace w @ ?es" "tree w' = tree w"
      "disk w' = (disk w)(path := Inr (au\<lparr>tags :=
                          Some (add (the_tags au) (USLT 3 ''eng'' [] (clean_lyrics l)))\<rparr>))"
      "saves ?es = [(path, add (the_tags au) (USLT 3 ''eng'' [] (clean_lyrics l)), save_error au)]"
      using saved t1 d1 tr1 s1 by simp_all
    show ?thesis
      by (rule fin2[OF f(1,2) resolved(1,2) saved(2) pr saved(3) f(4)])
         (simp add: saved(4,5) f(3))
  qed
qed
qed

text \<open>
  How a job ends: with True, with False, or with an exception, and then for one of two
  reasons. Either a frame under one of the four keys has no first text value; or the
  resolver returned the \<open>lyrics\<close> value of the last reply of the fallback provider, and
  this value is true and not a string.
\<close>

lemma job_outcomes:
  assumes run: "add_lyrics_to_file net path genius use_genius overwrite w = (r, w')"
  shows "r = Inr True \<or> r = Inr False
     \<or> (\<exists>au e. disk w path = Inr au \<and> \<not> texts_ok (the_tags au) \<and> r = Inl e)
     \<or> (\<exists>ty. r = Inl (no_attribute (PyOther ty True) ''splitlines'')
            \<and> http_calls (since w w') \<noteq> []
            \<and> snd (last (http_calls (since w w'))) = Response 200 (Inr (PyOther ty True)))"
  using run
proof (cases rule: job_cases)
  case (raised au e)
  then show ?thesis by blast
next
  case (resolved au title artist alt_title alt_artist res w1)
  obtain raw src where res: "res = (raw, src)" by (cases res)
  let ?w0 = "log INFO (''Processing file: '' @ path) w"
  from resolved(10)[unfolded res] show ?thesis
  proof (cases rule: write_lyrics_cases)
    case (not_a_string ty)
    from get_raw_lyrics_effect[OF resolved(9)[unfolded res]] obtain es1 where
      e1: "extends ?w0 es1 w1"
      and c: "(\<exists>l. raw = PyStr l)
          \<or> (http_calls es1 \<noteq> [] \<and> snd (last (http_calls es1)) = Response 200 (Inr raw))
          \<or> raw = PyNone"
      by blast
    from c not_a_string(1) have h: "http_calls es1 \<noteq> []"
      "snd (last (http_calls es1)) = Response 200 (Inr (PyOther ty True))"
      by auto
    from e1 not_a_string(3) have "trace w' = trace w @ (Log INFO (''Processing file: '' @ path) # es1)"
      by (simp add: extends_def)
    then have "since w w' = Log INFO (''Processing file: '' @ path) # es1" by (rule since_of_trace)
    then have "http_calls (since w w') = http_calls es1" by simp
    with h not_a_string(1,2) show ?thesis by simp
  qed simp_all
qed simp_all

lemma map_of_add: "map_of (add tgs f) (HashKey f) = Some f"
  by (simp add: add_def update_conv')

section \<open>The scanner walks the whole tree\<close>

lemma set_files_of: "set [n. (n, File) \<leftarrow> entries] = {n. (n, File) \<in> set entries}"
  by (induction entries) (auto split: fs_node.splits)

lemma walk_subdirs_mem:
  "(n, Dir sub) \<in> set entries \<Longrightarrow>
   set (os_walk (os_path_join dirpath n) sub) \<subseteq> set (walk_subdirs dirpath entries)"
proof (induction entries)
  case Nil
  then show ?case by simp
next
  case (Cons e entries)
  obtain m node where e: "e = (m, node)" by (cases e)
  show ?case
  proof (cases node)
    case File
    with Cons e show ?thesis by auto
  next
    case (Dir sub')
    with Cons e show ?thesis by auto
  qed
qed

lemma in_tree_walk:
  "in_tree dirpath entries dp f \<Longrightarrow>
   \<exists>ds fs. (dp, ds, fs) \<in> set (os_walk dirpath entries) \<and> f \<in> set fs"
proof (induction rule: in_tree.induct)
  case (here f entries dirpath)
  then have "f \<in> set [n. (n, File) \<leftarrow> entries]" by (simp add: set_files_of)
  then show ?case by (intro exI[of _ "[n. (n, Dir sub) \<leftarrow> entries]"] exI[of _ "[n. (n, File) \<leftarrow> entries]"]) simp
next
  case (below n sub entries dirpath dp f)
  then obtain ds fs where "(dp, ds, fs) \<in> set (os_walk (os_path_join dirpath n) sub)" "f \<in> set fs"
    by blast
  with walk_subdirs_mem[OF below(1), of dirpath] show ?case by (intro exI[of _ ds] exI[of _ fs]) auto
qed

lemma walk_in_tree:
  "(dp, ds, fs) \<in> set (os_walk dirpath entries) \<Longrightarrow> f \<in> set fs \<Longrightarrow> in_tree dirpath entries dp f"
  "(dp, ds, fs) \<in> set (walk_subdirs dirpath entries) \<Longrightarrow> f \<in> set fs \<Longrightarrow>
     \<exists>n sub. (n, Dir sub) \<in> set entries \<and> in_tree (os_path_join dirpath n) sub dp f"
proof (induction dirpath entries and dirpath entries arbitrary: dp ds fs and dp ds fs
       rule: os_walk_walk_subdirs.induct)
  case (1 dirpath entries)
  from 1(2) have "(dp = dirpath \<and> fs = [n. (n, File) \<leftarrow> entries])
      \<or> (dp, ds, fs) \<in> set (walk_subdirs dirpath entries)" by auto
  then show ?case
  proof
    assume "dp = dirpath \<and> fs = [n. (n, File) \<leftarrow> entries]"
    with 1(3) show ?thesis by (auto simp: set_files_of intro: in_tree.here)
  next
    assume "(dp, ds, fs) \<in> set (walk_subdirs dirpath entries)"
    from 1(1)[OF this 1(3)] show ?thesis by (auto intro: in_tree.below)
  qed
next
  case (2 dirpath)
  then show ?case by simp
next
  case (3 dirpath n entries)
  from 3(1)[of dp ds fs] 3(2,3) show ?case by auto
next
  case (4 dirpath n sub entries)
  from 4(3) have "(dp, ds, fs) \<in> set (os_walk (os_path_join dirpath n) sub)
      \<or> (dp, ds, fs) \<in> set (walk_subdirs dirpath entries)" by auto
  then show ?case
  proof
    assume "(dp, ds, fs) \<in> set (os_walk (os_path_join dirpath n) sub)"
    from 4(1)[OF this 4(4)] show ?thesis by auto
  next
    assume "(dp, ds, fs) \<in> set (walk_subdirs dirpath entries)"
    from 4(2)[OF this 4(4)] show ?thesis by auto
  qed
qed

lemma mp3s_of_directory:
  "set (concat (map (\<lambda>(dp, ds, fs). map (os_path_join dp) (filter is_mp3 fs))
                    (os_walk root entries)))
     = {os_path_join dp f | dp f. in_tree root entries dp f \<and> is_mp3 f}"
proof (intro set_eqI iffI)
  fix p
  assume "p \<in> set (concat (map (\<lambda>(dp, ds, fs). map (os_path_join dp) (filter is_mp3 fs))
                    (os_walk root entries)))"
  then obtain x where x: "x \<in> set (os_walk root entries)"
    and px: "p \<in> set ((\<lambda>(dp, ds, fs). map (os_path_join dp) (filter is_mp3 fs)) x)"
    by (auto simp del: os_walk.simps)
  obtain dp ds fs where xe: "x = (dp, ds, fs)" by (cases x)
  from px xe obtain f where "f \<in> set fs" "is_mp3 f" "p = os_path_join dp f" by auto
  with x xe have "(dp, ds, fs) \<in> set (os_walk root entries)" "f \<in> set fs" "is_mp3 f"
    "p = os_path_join dp f"
    by simp_all
  with walk_in_tree(1)[of dp ds fs root entries f]
  show "p \<in> {os_path_join dp f | dp f. in_tree root entries dp f \<and> is_mp3 f}" by blast
next
  fix p
  assume "p \<in> {os_path_join dp f | dp f. in_tree root entries dp f \<and> is_mp3 f}"
  then obtain dp f where i: "in_tree root entries dp f" and m: "is_mp3 f" and p: "p = os_path_join dp f"
    by blast
  from in_tree_walk[OF i] obtain ds fs where "(dp, ds, fs) \<in> set (os_walk root entries)" "f \<in> set fs"
    by blast
  with m p show "p \<in> set (concat (map (\<lambda>(dp, ds, fs). map (os_path_join dp) (filter is_mp3 fs))
                    (os_walk root entries)))"
    by (force simp del: os_walk.simps)
qed

section \<open>The tag writer\<close>

text \<open>
  Claim C1. For every file processed by \<open>add_lyrics_to_file\<close>, the file on disk is saved
  only if it has no unsynchronized-lyrics frame or the overwrite flag is true, and no lyrics
  frame is written when the resolved raw text is empty or absent, or when the cleaned text
  is empty.

  For every run of the job, whatever it returns or raises: either \<open>audio.save()\<close> is never
  called and the disk is as before; or it is called exactly once, for this path, on a file
  that was opened and that had no USLT frame or was processed with overwrite, a provider
  returned the non-empty text \<open>raw\<close>, \<open>clean_lyrics raw\<close> is not empty, and the tags written
  are the file's tags with \<open>USLT(3, "eng", "", clean_lyrics raw)\<close> added; the disk then
  is as before (the save failed) or differs at this path only, by these tags.
\<close>

theorem file_written_only_when_allowed:
  assumes "add_lyrics_to_file net path genius use_genius overwrite w = (r, w')"
  shows "(saves (since w w') = [] \<and> disk w' = disk w)
       \<or> (\<exists>au raw. disk w path = Inr au
              \<and> (overwrite \<or> \<not> list_ex is_USLT (map snd (the_tags au)))
              \<and> raw \<noteq> [] \<and> provided raw (since w w') \<and> clean_lyrics raw \<noteq> []
              \<and> saves (since w w')
                  = [(path, add (the_tags au) (USLT 3 ''eng'' [] (clean_lyrics raw)), save_error au)]
              \<and> (disk w' = disk w
                  \<or> disk w' = (disk w)(path := Inr (au\<lparr>tags :=
                          Some (add (the_tags au) (USLT 3 ''eng'' [] (clean_lyrics raw)))\<rparr>))))"
proof -
  from job_summary[OF assms] obtain es where
    t: "trace w' = trace w @ es"
    and c: "(r \<noteq> Inr True \<and> saves es = [] \<and> disk w' = disk w)
        \<or> (\<exists>au raw. disk w path = Inr au
              \<and> (overwrite \<or> \<not> list_ex is_USLT (map snd (the_tags au)))
              \<and> raw \<noteq> [] \<and> provided raw es \<and> clean_lyrics raw \<noteq> []
              \<and> saves es = [(path, add (the_tags au) (USLT 3 ''eng'' [] (clean_lyrics raw)),
                             save_error au)]
              \<and> ((save_error au \<noteq> None \<and> r = Inr False \<and> disk w' = disk w)
                 \<or> (save_error au = None \<and> r = Inr True
                     \<and> disk w' = (disk w)(path := Inr (au\<lparr>tags :=
                          Some (add (the_tags au) (USLT 3 ''eng'' [] (clean_lyrics raw)))\<rparr>)))))"
    by blast
  have s: "since w w' = es" using t by (rule since_of_trace)
  from c show ?thesis unfolding s by blast
qed

theorem file_written_only_when_allowed_witness:
  "saves (since (demo_world (Some demo_tags) None) (snd job_demo))
     = [(''song.mp3'', demo_tags @ [(''USLT::eng'', USLT 3 ''eng'' [] ''la la la'')], None)]
   \<and> (\<exists>au raw. disk (demo_world (Some demo_tags) None) ''song.mp3'' = Inr au
         \<and> \<not> list_ex is_USLT (map snd (the_tags au))
         \<and> raw \<noteq> [] \<and> provided raw (since (demo_world (Some demo_tags) None) (snd job_demo))
         \<and> clean_lyrics raw \<noteq> []
         \<and> saves (since (demo_world (Some demo_tags) None) (snd job_demo))
             = [(''song.mp3'', add (the_tags au) (USLT 3 ''eng'' [] (clean_lyrics raw)),
                 save_error au)])"
proof -
  have r: "add_lyrics_to_file demo_net ''song.mp3'' None False False
             (demo_world (Some demo_tags) None) = (fst job_demo, snd job_demo)"
    by (simp add: job_demo_def)
  have e: "saves (since (demo_world (Some demo_tags) None) (snd job_demo))
       = [(''song.mp3'', demo_tags @ [(''USLT::eng'', USLT 3 ''eng'' [] ''la la la'')], None)]"
    by code_simp
  from file_written_only_when_allowed[OF r] e show ?thesis by auto
qed

text \<open>
  Claim C4. For a file that already holds an unsynchronized-lyrics frame, with overwrite set
  and lyrics resolved and cleaned, the claim says the lyrics frame's content is replaced by
  the cleaned text, so that a single frame (language \<open>eng\<close>, empty description) remains.

  The code adds the new frame under the key \<open>USLT::eng\<close>. A lyrics frame that the file
  holds under another language or description is a different key, and it stays: on the
  file below, whose lyrics frame has the language \<open>XXX\<close>, the job returns True and the saved
  tags hold two lyrics frames, the old text first.
\<close>

theorem overwrite_keeps_other_lyrics_frame:
  "fst overwrite_demo = Inr True
   \<and> (case disk (snd overwrite_demo) ''song.mp3'' of
        Inl e \<Rightarrow> []
      | Inr au \<Rightarrow> filter is_USLT (map snd (the_tags au)))
     = [USLT 1 ''XXX'' [] ''old words'', USLT 3 ''eng'' [] ''la la la'']"
  by code_simp

text \<open>
  Claim C5. For every file whose tag container already holds an unsynchronized-lyrics frame
  (of any language or description), when overwrite is false the job skips the file: no
  provider is queried, nothing is written, and the lyrics frame and all other tags are
  unchanged.

  The job returns False, and the world after it is the world before it with two log
  records added: no call of a provider, no call of \<open>audio.save()\<close>, the same disk.
\<close>

theorem skip_when_lyrics_present:
  assumes "disk w path = Inr au" and "list_ex is_USLT (map snd (the_tags au))" and "\<not> overwrite"
  shows "add_lyrics_to_file net path genius use_genius overwrite w =
           (Inr False,
            w\<lparr>trace := trace w @ [Log INFO (''Processing file: '' @ path),
                                   Log INFO ''Existing lyrics; skipping.'']\<rparr>)"
  using assms by (simp add: add_lyrics_to_file_def Let_def log_def)

theorem skip_when_lyrics_present_witness:
  "disk (demo_world (Some lyrics_in_other_language) None) ''song.mp3''
     = Inr \<lparr>tags = Some lyrics_in_other_language, save_error = None\<rparr>
   \<and> list_ex is_USLT (map snd lyrics_in_other_language)
   \<and> add_lyrics_to_file demo_net ''song.mp3'' (Some demo_genius) True False
        (demo_world (Some lyrics_in_other_language) None)
     = (Inr False,
        (demo_world (Some lyrics_in_other_language) None)
          \<lparr>trace := [Log INFO ''Processing file: song.mp3'',
                     Log INFO ''Existing lyrics; skipping.'']\<rparr>)"
proof -
  let ?w = "demo_world (Some lyrics_in_other_language) None"
  let ?au = "\<lparr>tags = Some lyrics_in_other_language, save_error = None\<rparr>"
  have d: "disk ?w ''song.mp3'' = Inr ?au" by (simp add: demo_world_def)
  have u: "list_ex is_USLT (map snd (the_tags ?au))"
    by (simp add: the_tags_def demo_tags_def lyrics_in_other_language_def)
  have t: "trace ?w = []" by (simp add: demo_world_def)
  from skip_when_lyrics_present[OF d u, of False demo_net "Some demo_genius" True] d u t
  show ?thesis by (simp add: the_tags_def)
qed

section \<open>The lyric resolver\<close>

text \<open>
  Claim C2. For every title \<open>T\<close>, artist \<open>A\<close>, optional \<open>T2\<close> and optional \<open>A2\<close>,
  \<open>get_raw_lyrics\<close> queries each provider with the variants in the order \<open>(T, A)\<close>, then
  \<open>(T, A2)\<close> if \<open>A2\<close> is present, then \<open>(T2, A)\<close> if \<open>T2\<close> is present, then \<open>(T2, A2)\<close>
  if both are present; within a provider it stops at the first variant that returns a
  non-empty result and sends no further query to that provider.

  Present is what \<open>if alt_artist:\<close> tests: the value is neither None nor the empty string
  (\<open>truthy\<close>). The primary provider is asked exactly when it is enabled (\<open>use_genius and
  genius\<close>): its calls are then the variants in this order, up to and including the first
  one with a non-empty result, all of them when none has one. The fallback provider is
  asked exactly when no call of the primary provider had a non-empty result, which
  includes the case that there was no such call: its calls are then the variants in this
  order, in the same way. The fallback provider is asked by URL, so its calls are compared
  with the URLs of the variants.
\<close>

theorem variants_queried_in_order:
  assumes "get_raw_lyrics net T A genius use_genius T2 A2 w = (res, w')"
    and "vs = (T, A) # (if truthy A2 then [(T, the A2)] else [])
                     @ (if truthy T2 then [(the T2, A)] else [])
                     @ (if truthy T2 \<and> truthy A2 then [(the T2, the A2)] else [])"
  shows "(if use_genius \<and> genius \<noteq> None
          then until_success (genius_calls (since w w')) vs genius_ok
          else genius_calls (since w w') = [])
       \<and> (if list_ex (\<lambda>c. genius_ok (snd c)) (genius_calls (since w w'))
          then http_calls (since w w') = []
          else until_success (http_calls (since w w')) (map (\<lambda>(t, a). ovh_url t a) vs) ovh_ok)"
proof -
  obtain raw src where "res = (raw, src)" by (cases res)
  with assms(1) have "get_raw_lyrics net T A genius use_genius T2 A2 w = ((raw, src), w')" by simp
  from get_raw_lyrics_since[OF this]
  have g: "if use_genius \<and> genius \<noteq> None
         then until_success (genius_calls (since w w')) (variants T A T2 A2) genius_ok
         else genius_calls (since w w') = []"
    and c: "(http_calls (since w w') = []
              \<and> list_ex (\<lambda>c. genius_ok (snd c)) (genius_calls (since w w')))
        \<or> (list_all (\<lambda>c. \<not> genius_ok (snd c)) (genius_calls (since w w'))
            \<and> until_success (http_calls (since w w'))
                 (map (\<lambda>(t, a). ovh_url t a) (variants T A T2 A2)) ovh_ok)"
    by auto
  have v: "variants T A T2 A2 = vs" unfolding assms(2) by (rule variants_explicit)
  from c have "if list_ex (\<lambda>c. genius_ok (snd c)) (genius_calls (since w w'))
          then http_calls (since w w') = []
          else until_success (http_calls (since w w'))
                 (map (\<lambda>(t, a). ovh_url t a) (variants T A T2 A2)) ovh_ok"
    by (auto simp: list_all_iff list_ex_iff)
  with g show ?thesis unfolding v by simp
qed

theorem variants_queried_in_order_witness:
  "genius_calls (since resolver_world (snd genius_demo))
     = [((''Title'', ''Artist''), No_Song), ((''Title'', ''Band''), Song ''You and me'')]
   \<and> until_success (genius_calls (since resolver_world (snd genius_demo)))
        [(''Title'', ''Artist''), (''Title'', ''Band''), (''Album'', ''Artist''), (''Album'', ''Band'')]
        genius_ok
   \<and> http_calls (since resolver_world (snd genius_demo)) = []
   \<and> genius_calls (since resolver_world (snd ovh_demo)) = []
   \<and> map fst (http_calls (since resolver_world (snd ovh_demo)))
       = [ovh_url ''Title'' ''Artist'', ovh_url ''Title'' ''Band'', ovh_url ''Album'' ''Artist'']
   \<and> until_success (http_calls (since resolver_world (snd ovh_demo)))
        (map (\<lambda>(t, a). ovh_url t a)
           [(''Title'', ''Artist''), (''Title'', ''Band''), (''Album'', ''Artist''), (''Album'', ''Band'')])
        ovh_ok"
proof -
  have r: "get_raw_lyrics album_net ''Title'' ''Artist'' (Some demo_genius) True
             (Some ''Album'') (Some ''Band'') resolver_world = (fst genius_demo, snd genius_demo)"
    by (simp add: genius_demo_def)
  have r': "get_raw_lyrics album_net ''Title'' ''Artist'' None False
             (Some ''Album'') (Some ''Band'') resolver_world = (fst ovh_demo, snd ovh_demo)"
    by (simp add: ovh_demo_def)
  have v: "[(''Title'', ''Artist''), (''Title'', ''Band''), (''Album'', ''Artist''), (''Album'', ''Band'')]
            = (''Title'', ''Artist'') # (if truthy (Some ''Band'') then [(''Title'', the (Some ''Band''))] else [])
                     @ (if truthy (Some ''Album'') then [(the (Some ''Album''), ''Artist'')] else [])
                     @ (if truthy (Some ''Album'') \<and> truthy (Some ''Band'')
                        then [(the (Some ''Album''), the (Some ''Band''))] else [])"
    by simp
  have g: "genius_calls (since resolver_world (snd genius_demo))
     = [((''Title'', ''Artist''), No_Song), ((''Title'', ''Band''), Song ''You and me'')]"
    by code_simp
  have g': "genius_calls (since resolver_world (snd ovh_demo)) = []" by code_simp
  have h': "map fst (http_calls (since resolver_world (snd ovh_demo)))
       = [ovh_url ''Title'' ''Artist'', ovh_url ''Title'' ''Band'', ovh_url ''Album'' ''Artist'']"
    by code_simp
  from variants_queried_in_order[OF r v] g
  have a: "until_success (genius_calls (since resolver_world (snd genius_demo)))
        [(''Title'', ''Artist''), (''Title'', ''Band''), (''Album'', ''Artist''), (''Album'', ''Band'')]
        genius_ok"
    and b: "http_calls (since resolver_world (snd genius_demo)) = []"
    by simp_all
  from variants_queried_in_order[OF r' v] g'
  have c: "until_success (http_calls (since resolver_world (snd ovh_demo)))
        (map (\<lambda>(t, a). ovh_url t a)
           [(''Title'', ''Artist''), (''Title'', ''Band''), (''Album'', ''Artist''), (''Album'', ''Band'')])
        ovh_ok"
    by simp
  from g a b g' h' c show ?thesis by simp
qed

text \<open>
  Claim C9. When the primary provider is disabled (no credential), and when it yields
  nothing for all variants, each variant is tried against the fallback provider in the same
  order, stopping at the first success; when the primary provider is disabled, only the
  fallback provider is queried.

  Disabled is \<open>not (use_genius and genius)\<close>. The primary provider yields nothing for all
  variants when it is enabled and none of its calls has a non-empty result: the calls are
  then all the variants. The last part is the converse: the result carries the label of
  the primary provider exactly when one of its calls had a non-empty result, and the
  fallback provider is then not queried.
\<close>

theorem fallback_provider_order:
  assumes "get_raw_lyrics net T A genius use_genius T2 A2 w = (res, w')"
  shows "(\<not> (use_genius \<and> genius \<noteq> None) \<longrightarrow>
            genius_calls (since w w') = []
            \<and> until_success (http_calls (since w w'))
                 (map (\<lambda>(t, a). ovh_url t a) (variants T A T2 A2)) ovh_ok)
       \<and> (use_genius \<and> genius \<noteq> None
            \<and> list_all (\<lambda>c. \<not> genius_ok (snd c)) (genius_calls (since w w')) \<longrightarrow>
            map fst (genius_calls (since w w')) = variants T A T2 A2
            \<and> until_success (http_calls (since w w'))
                 (map (\<lambda>(t, a). ovh_url t a) (variants T A T2 A2)) ovh_ok)
       \<and> (snd res = Some Genius
            \<longleftrightarrow> list_ex (\<lambda>c. genius_ok (snd c)) (genius_calls (since w w')))
       \<and> (list_ex (\<lambda>c. genius_ok (snd c)) (genius_calls (since w w')) \<longrightarrow>
            http_calls (since w w') = [])"
proof -
  obtain raw src where res: "res = (raw, src)" by (cases res)
  with assms(1) have "get_raw_lyrics net T A genius use_genius T2 A2 w = ((raw, src), w')" by simp
  from get_raw_lyrics_since[OF this]
  have g: "if use_genius \<and> genius \<noteq> None
         then until_success (genius_calls (since w w')) (variants T A T2 A2) genius_ok
         else genius_calls (since w w') = []"
    and c: "(src = Some Genius \<and> http_calls (since w w') = []
              \<and> list_ex (\<lambda>c. genius_ok (snd c)) (genius_calls (since w w')))
        \<or> (src \<noteq> Some Genius
            \<and> list_all (\<lambda>c. \<not> genius_ok (snd c)) (genius_calls (since w w'))
            \<and> until_success (http_calls (since w w'))
                 (map (\<lambda>(t, a). ovh_url t a) (variants T A T2 A2)) ovh_ok)"
    by simp_all
  have x: "\<not> (list_ex (\<lambda>c. genius_ok (snd c)) cs \<and> list_all (\<lambda>c. \<not> genius_ok (snd c)) cs)"
    for cs :: "((string \<times> string) \<times> genius_reply) list"
    by (auto simp: list_all_iff list_ex_iff)
  have 1: "genius_calls (since w w') = []
            \<and> until_success (http_calls (since w w'))
                 (map (\<lambda>(t, a). ovh_url t a) (variants T A T2 A2)) ovh_ok"
    if off: "\<not> (use_genius \<and> genius \<noteq> None)"
  proof -
    from g off have e: "genius_calls (since w w') = []" by (simp split: if_splits)
    with c show ?thesis by auto
  qed
  have 2: "map fst (genius_calls (since w w')) = variants T A T2 A2
            \<and> until_success (http_calls (since w w'))
                 (map (\<lambda>(t, a). ovh_url t a) (variants T A T2 A2)) ovh_ok"
    if on: "use_genius \<and> genius \<noteq> None
            \<and> list_all (\<lambda>c. \<not> genius_ok (snd c)) (genius_calls (since w w'))"
  proof -
    from on have f: "list_all (\<lambda>c. \<not> genius_ok (snd c)) (genius_calls (since w w'))" by simp
    with c x[of "genius_calls (since w w')"]
    have u: "until_success (http_calls (since w w'))
                 (map (\<lambda>(t, a). ovh_url t a) (variants T A T2 A2)) ovh_ok"
      by blast
    from g on have "until_success (genius_calls (since w w')) (variants T A T2 A2) genius_ok" by simp
    from until_success_all_failed[OF this f] u show ?thesis by simp
  qed
  have 3: "snd res = Some Genius \<longleftrightarrow> list_ex (\<lambda>c. genius_ok (snd c)) (genius_calls (since w w'))"
    using c x[of "genius_calls (since w w')"] res by auto
  have 4: "http_calls (since w w') = []"
    if "list_ex (\<lambda>c. genius_ok (snd c)) (genius_calls (since w w'))"
    using that c x[of "genius_calls (since w w')"] by blast
  from 1 2 3 4 show ?thesis by blast
qed

theorem fallback_provider_order_witness:
  "map fst (http_calls (since resolver_world (snd ovh_demo)))
     = [ovh_url ''Title'' ''Artist'', ovh_url ''Title'' ''Band'', ovh_url ''Album'' ''Artist'']
   \<and> genius_calls (since resolver_world (snd ovh_demo)) = []
   \<and> until_success (http_calls (since resolver_world (snd ovh_demo)))
        (map (\<lambda>(t, a). ovh_url t a) (variants ''Title'' ''Artist'' (Some ''Album'') (Some ''Band'')))
        ovh_ok
   \<and> genius_calls (since resolver_world (snd silent_genius_demo))
        = [((''Title'', ''Artist''), No_Song), ((''Album'', ''Artist''), No_Song)]
   \<and> map fst (genius_calls (since resolver_world (snd silent_genius_demo)))
        = variants ''Title'' ''Artist'' (Some ''Album'') None
   \<and> until_success (http_calls (since resolver_world (snd silent_genius_demo)))
        (map (\<lambda>(t, a). ovh_url t a) (variants ''Title'' ''Artist'' (Some ''Album'') None))
        ovh_ok
   \<and> snd (fst genius_demo) = Some Genius
   \<and> http_calls (since resolver_world (snd genius_demo)) = []"
proof -
  have r1: "get_raw_lyrics album_net ''Title'' ''Artist'' None False
             (Some ''Album'') (Some ''Band'') resolver_world = (fst ovh_demo, snd ovh_demo)"
    by (simp add: ovh_demo_def)
  have r2: "get_raw_lyrics album_net ''Title'' ''Artist'' (Some (\<lambda>h t a. No_Song)) True
             (Some ''Album'') None resolver_world = (fst silent_genius_demo, snd silent_genius_demo)"
    by (simp add: silent_genius_demo_def)
  have r3: "get_raw_lyrics album_net ''Title'' ''Artist'' (Some demo_genius) True
             (Some ''Album'') (Some ''Band'') resolver_world = (fst genius_demo, snd genius_demo)"
    by (simp add: genius_demo_def)
  have u: "map fst (http_calls (since resolver_world (snd ovh_demo)))
     = [ovh_url ''Title'' ''Artist'', ovh_url ''Title'' ''Band'', ovh_url ''Album'' ''Artist'']"
    by code_simp
  have s2: "genius_calls (since resolver_world (snd silent_genius_demo))
        = [((''Title'', ''Artist''), No_Song), ((''Album'', ''Artist''), No_Song)]"
    by code_simp
  have s3: "genius_calls (since resolver_world (snd genius_demo))
     = [((''Title'', ''Artist''), No_Song), ((''Title'', ''Band''), Song ''You and me'')]"
    by code_simp
  from fallback_provider_order[OF r1]
  have a: "genius_calls (since resolver_world (snd ovh_demo)) = []
           \<and> until_success (http_calls (since resolver_world (snd ovh_demo)))
               (map (\<lambda>(t, a). ovh_url t a) (variants ''Title'' ''Artist'' (Some ''Album'') (Some ''Band'')))
               ovh_ok"
    by simp
  from fallback_provider_order[OF r2] s2
  have b: "map fst (genius_calls (since resolver_world (snd silent_genius_demo)))
             = variants ''Title'' ''Artist'' (Some ''Album'') None
           \<and> until_success (http_calls (since resolver_world (snd silent_genius_demo)))
               (map (\<lambda>(t, a). ovh_url t a) (variants ''Title'' ''Artist'' (Some ''Album'') None))
               ovh_ok"
    by simp
  from fallback_provider_order[OF r3] s3
  have c: "snd (fst genius_demo) = Some Genius
           \<and> http_calls (since resolver_world (snd genius_demo)) = []"
    by simp
  from u a s2 b c show ?thesis by simp
qed

section \<open>Errors and outcomes of a job\<close>

text \<open>
  Claim C6. \<open>add_lyrics_to_file\<close> is total: every error of a job is caught inside the job
  and converted into a boolean outcome, so that no exception leaves the job for the
  dispatcher.

  The job catches what the opening of the file, the two providers and the save raise. The
  object that the fallback provider returns as \<open>lyrics\<close> goes to \<open>clean_lyrics\<close> as it is:
  when the server answers with status 200 and a \<open>lyrics\<close> field that is true and not a
  string, here the number 1, line 136 raises AttributeError outside every \<open>try\<close>. On the
  file \<open>song.mp3\<close>, which has a title and an artist, the exception leaves the job after the
  request; the dispatcher receives it from \<open>fut.result()\<close> and logs \<open>Thread error.\<close>
\<close>

theorem exception_leaves_the_job:
  "fst number_demo = Inl (no_attribute (PyOther Py_int True) ''splitlines'')
   \<and> str_exn (no_attribute (PyOther Py_int True) ''splitlines'')
       = quoted ''int'' @ '' object has no attribute '' @ quoted ''splitlines''
   \<and> trace (snd number_demo)
       = [Log INFO ''Processing file: song.mp3'',
          Log INFO ''Genius lookup skipped'',
          Log INFO (''OVH lookup for '' @ quoted ''Title'' @ '' by '' @ quoted ''Artist''),
          Http_Get ''https://api.lyrics.ovh/v1/Artist/Title''
            (Response 200 (Inr (PyOther Py_int True))),
          Log DEBUG ''OVH HTTP 200 for Artist - Title'']
   \<and> fst number_dispatch = Inr ()
   \<and> trace (snd number_dispatch)
       = Log INFO ''Queueing 1 files (threads=4).'' # trace (snd number_demo)
         @ [Log ERROR ''Thread error.'']"
  by code_simp

text \<open>
  Claim C8. For every opened file, the metadata reader takes the title from the first
  populated field of (\<open>TIT2\<close>, \<open>TALB\<close>) and the artist from the first populated field of
  (\<open>TPE1\<close>, \<open>TPE2\<close>); if neither title nor artist resolves, the job fails with the
  missing-metadata condition, the file is skipped and no write is attempted.

  Lines 122 and 123 take the first frame that is present, not the first that is populated:
  a title frame whose text is the empty string stops the search, and line 124 then finds
  the title missing, although the album field is populated. The file below has such a
  title frame, the album \<open>Album\<close> and the artist \<open>Artist\<close>: the job logs the
  missing-metadata warning and returns False without a query. The same file without the
  title frame takes its title from the album, finds the lyrics and is saved.
\<close>

theorem empty_title_blocks_album:
  "map_of empty_title_tags ''TIT2'' = Some (TextFrame ''TIT2'' [[]])
   \<and> map_of empty_title_tags ''TALB'' = Some (TextFrame ''TALB'' [''Album''])
   \<and> first_text empty_title_tags [''TIT2'', ''TALB''] = Inr (Some [])
   \<and> fst empty_title_demo = Inr False
   \<and> trace (snd empty_title_demo)
       = [Log INFO ''Processing file: song.mp3'',
          Log WARNING ''Missing title/artist metadata.'']
   \<and> first_text album_tags [''TIT2'', ''TALB''] = Inr (Some ''Album'')
   \<and> fst album_demo = Inr True
   \<and> map fst (http_calls (trace (snd album_demo))) = [''https://api.lyrics.ovh/v1/Artist/Album'']
   \<and> saves (trace (snd album_demo))
       = [(''song.mp3'', album_tags @ [(''USLT::eng'', USLT 3 ''eng'' [] ''words'')], None)]"
  by code_simp

text \<open>
  Claim C10. \<open>add_lyrics_to_file\<close> returns True exactly when lyrics were resolved, cleaned
  to a non-empty text, written and saved; in every other case, the skip of a file with
  existing lyrics included, it returns False.

  When the fallback provider answers with status 200 and a \<open>lyrics\<close> field that is true
  and not a string, here a list, nothing is written and the job returns neither True nor
  False: line 136 raises AttributeError, and the call has no return value.
\<close>

theorem raises_instead_of_returning_false:
  "fst list_demo \<noteq> Inr True
   \<and> fst list_demo \<noteq> Inr False
   \<and> fst list_demo = Inl (no_attribute (PyOther Py_list True) ''splitlines'')
   \<and> genius_calls (trace (snd list_demo)) = [((''Title'', ''Artist''), No_Song)]
   \<and> http_calls (trace (snd list_demo))
       = [(''https://api.lyrics.ovh/v1/Artist/Title'', Response 200 (Inr (PyOther Py_list True)))]
   \<and> saves (trace (snd list_demo)) = []
   \<and> disk (snd list_demo) ''song.mp3'' = disk single_file_world ''song.mp3''"
  by code_simp

section \<open>The path scanner\<close>

text \<open>
  Claim C7, as stated: a root that is neither an existing matching file nor a directory is
  reported as a configuration error and produces no job. The code tests only the name: a
  path that does not exist and ends in \<open>.mp3\<close> is queued as one job, no error is logged, and
  the job then fails to open the file.
\<close>

theorem missing_mp3_path_is_queued:
  "demo_tree ''missing.mp3'' = None
   \<and> mp3s demo_tree ''missing.mp3'' = Some [''missing.mp3'']
   \<and> trace (snd (process_path demo_net ''missing.mp3'' None False False 4
                    \<lparr>tree = demo_tree, disk = demo_disk, trace = []\<rparr>))
       = [Log INFO ''Queueing 1 files (threads=4).'',
          Log INFO ''Processing file: missing.mp3'',
          Log ERROR ''Open failure: No such file or directory'']"
  by code_simp

text \<open>
  Claim C7, amended. If the root is a directory, the queue holds exactly the files below
  it, at any depth, whose names end in \<open>.mp3\<close> in any letter case. If the root is not a
  directory and its name ends in \<open>.mp3\<close> in any letter case, exactly that one path is
  queued, whether or not a file is there. If the root is not a directory and its name does
  not end so, nothing is queued, and \<open>process_path\<close> logs the error \<open>Invalid path.\<close> and
  does nothing else.
\<close>

theorem scanner_queue:
  "(tr root = Some (Dir entries) \<longrightarrow>
      (\<exists>queue. mp3s tr root = Some queue
          \<and> set queue = {os_path_join dp f | dp f. in_tree root entries dp f \<and> is_mp3 f}))
   \<and> ((tr root = None \<or> tr root = Some File) \<and> is_mp3 root \<longrightarrow> mp3s tr root = Some [root])
   \<and> ((tr root = None \<or> tr root = Some File) \<and> \<not> is_mp3 root \<longrightarrow>
        mp3s tr root = None
        \<and> (tr = tree w \<longrightarrow>
             process_path net root genius use_genius overwrite threads w
               = (Inr (), log ERROR ''Invalid path.'' w)))"
proof (intro conjI impI)
  assume "tr root = Some (Dir entries)"
  then show "\<exists>queue. mp3s tr root = Some queue
          \<and> set queue = {os_path_join dp f | dp f. in_tree root entries dp f \<and> is_mp3 f}"
    using mp3s_of_directory[of root entries] by (simp add: mp3s_def)
next
  assume "(tr root = None \<or> tr root = Some File) \<and> is_mp3 root"
  then show "mp3s tr root = Some [root]" by (auto simp: mp3s_def)
next
  assume "(tr root = None \<or> tr root = Some File) \<and> \<not> is_mp3 root"
  then show "mp3s tr root = None" by (auto simp: mp3s_def)
next
  assume "(tr root = None \<or> tr root = Some File) \<and> \<not> is_mp3 root" and "tr = tree w"
  then have "mp3s (tree w) root = None" by (auto simp: mp3s_def)
  then show "process_path net root genius use_genius overwrite threads w
               = (Inr (), log ERROR ''Invalid path.'' w)"
    by (simp add: process_path_def)
qed

theorem scanner_queue_witness:
  "mp3s demo_tree ''music'' = Some [''music/song.mp3'', ''music/live/Encore.MP3'']
   \<and> (\<exists>queue. mp3s demo_tree ''music'' = Some queue
         \<and> set queue = {os_path_join dp f | dp f.
              in_tree ''music'' [(''song.mp3'', File), (''notes.txt'', File),
                                 (''live'', Dir [(''Encore.MP3'', File)])] dp f \<and> is_mp3 f})
   \<and> mp3s demo_tree ''missing.mp3'' = Some [''missing.mp3'']
   \<and> mp3s demo_tree ''notes.txt'' = None
   \<and> process_path demo_net ''notes.txt'' None False False 4 dispatch_world
       = (Inr (), log ERROR ''Invalid path.'' dispatch_world)"
proof -
  have m: "mp3s demo_tree ''music'' = Some [''music/song.mp3'', ''music/live/Encore.MP3'']"
    by code_simp
  have d: "demo_tree ''music'' = Some (Dir [(''song.mp3'', File), (''notes.txt'', File),
                                 (''live'', Dir [(''Encore.MP3'', File)])])"
    by (simp add: demo_tree_def)
  have n1: "demo_tree ''missing.mp3'' = None \<or> demo_tree ''missing.mp3'' = Some File"
    by (simp add: demo_tree_def)
  have n2: "demo_tree ''notes.txt'' = None \<or> demo_tree ''notes.txt'' = Some File"
    by (simp add: demo_tree_def)
  have i1: "is_mp3 ''missing.mp3''" by code_simp
  have i2: "\<not> is_mp3 ''notes.txt''" by code_simp
  have tw: "demo_tree = tree dispatch_world" by (simp add: dispatch_world_def)
  from scanner_queue[of demo_tree "''music''" "[(''song.mp3'', File), (''notes.txt'', File),
                                 (''live'', Dir [(''Encore.MP3'', File)])]"] d
  have a: "\<exists>queue. mp3s demo_tree ''music'' = Some queue
         \<and> set queue = {os_path_join dp f | dp f.
              in_tree ''music'' [(''song.mp3'', File), (''notes.txt'', File),
                                 (''live'', Dir [(''Encore.MP3'', File)])] dp f \<and> is_mp3 f}"
    by blast
  from scanner_queue[of demo_tree "''missing.mp3''"] n1 i1
  have b: "mp3s demo_tree ''missing.mp3'' = Some [''missing.mp3'']" by blast
  from scanner_queue[of demo_tree "''notes.txt''" _ dispatch_world demo_net None False False 4] n2 i2 tw
  have c: "mp3s demo_tree ''notes.txt'' = None"
    and c': "process_path demo_net ''notes.txt'' None False False 4 dispatch_world
       = (Inr (), log ERROR ''Invalid path.'' dispatch_world)"
    by blast+
  from m a b c c' show ?thesis by blast
qed

end
